theory Spec2Isabelle
  imports Complex_Main
begin

section \<open>Python strings\<close>

text \<open>
  A Python \<open>str\<close> is a sequence of Unicode code points, so a character is modelled by
  its code point and a string by the list of them. \<open>lit\<close> embeds an ASCII literal.
\<close>

type_synonym pychar = nat
type_synonym pystr = "pychar list"

definition lit :: "string \<Rightarrow> pystr" where
  "lit s = map of_char s"

text \<open>
  \<open>isspace\<close> is the set of characters that \<open>str.isspace\<close>, \<open>str.strip()\<close> and the
  class \<open>\s\<close> of \<open>re\<close> (on \<open>str\<close> patterns) agree on: U+0009..U+000D, U+001C..U+0020,
  U+0085, U+00A0, U+1680, U+2000..U+200A, U+2028, U+2029, U+202F, U+205F, U+3000.
\<close>

definition isspace :: "pychar \<Rightarrow> bool" where
  "isspace c \<longleftrightarrow>
     (9 \<le> c \<and> c \<le> 13) \<or> (28 \<le> c \<and> c \<le> 32) \<or> c = 133 \<or> c = 160 \<or> c = 5760 \<or>
     (8192 \<le> c \<and> c \<le> 8202) \<or> c = 8232 \<or> c = 8233 \<or> c = 8239 \<or> c = 8287 \<or> c = 12288"

definition startswith :: "pystr \<Rightarrow> pystr \<Rightarrow> bool" where
  "startswith s p \<longleftrightarrow> take (length p) s = p"



text \<open>\<open>s[i:j]\<close> for \<open>0 \<le> i\<close> and \<open>0 \<le> j\<close>.\<close>

definition slice :: "pystr \<Rightarrow> nat \<Rightarrow> nat \<Rightarrow> pystr" where
  "slice s i j = take (j - i) (drop i s)"

section \<open>The two regular expressions of the parser\<close>

text \<open>
  The patterns of \<open>parse_json_from_response\<close> use literals, character classes, greedy and
  lazy repetition of a class, and one capture group. \<open>bt\<close> is the backtracking matcher of
  \<open>re\<close> for such patterns, anchored at the head of the remaining input: alternatives are
  tried in the order \<open>re\<close> tries them (greedy: longest first, lazy: shortest first) and the
  first that lets the rest of the pattern match wins. It returns the end of the match and
  the bounds of the group, all as indices into the whole text.
\<close>

datatype item =
    Lit pychar
  | Star "pychar \<Rightarrow> bool"
  | Plus "pychar \<Rightarrow> bool"
  | LazyStar "pychar \<Rightarrow> bool"
  | GroupOpen
  | GroupClose

fun bt :: "item list \<Rightarrow> pystr \<Rightarrow> nat \<Rightarrow> nat \<times> nat \<Rightarrow> (nat \<times> nat \<times> nat) option" where
  "bt [] s pos g = Some (pos, g)"
| "bt (Lit c # r) [] pos g = None"
| "bt (Lit c # r) (x # xs) pos g = (if x = c then bt r xs (Suc pos) g else None)"
| "bt (Star P # r) [] pos g = bt r [] pos g"
| "bt (Star P # r) (x # xs) pos g =
     (if P x then
        (case bt (Star P # r) xs (Suc pos) g of
           Some m \<Rightarrow> Some m
         | None \<Rightarrow> bt r (x # xs) pos g)
      else bt r (x # xs) pos g)"
| "bt (Plus P # r) [] pos g = None"
| "bt (Plus P # r) (x # xs) pos g =
     (if P x then bt (Star P # r) xs (Suc pos) g else None)"
| "bt (LazyStar P # r) [] pos g = bt r [] pos g"
| "bt (LazyStar P # r) (x # xs) pos g =
     (case bt r (x # xs) pos g of
        Some m \<Rightarrow> Some m
      | None \<Rightarrow> (if P x then bt (LazyStar P # r) xs (Suc pos) g else None))"
| "bt (GroupOpen # r) s pos g = bt r s pos (pos, snd g)"
| "bt (GroupClose # r) s pos g = bt r s pos (fst g, pos)"

text \<open>
  \<open>re.search\<close>: the leftmost start at which the pattern matches. The result is
  \<open>(start, end, group start, group end)\<close>.
\<close>

fun re_search_from :: "item list \<Rightarrow> pystr \<Rightarrow> nat \<Rightarrow> (nat \<times> nat \<times> nat \<times> nat) option" where
  "re_search_from pat [] pos =
     (case bt pat [] pos (pos, pos) of Some m \<Rightarrow> Some (pos, m) | None \<Rightarrow> None)"
| "re_search_from pat (x # xs) pos =
     (case bt pat (x # xs) pos (pos, pos) of
        Some m \<Rightarrow> Some (pos, m)
      | None \<Rightarrow> re_search_from pat xs (Suc pos))"

definition re_search :: "item list \<Rightarrow> pystr \<Rightarrow> (nat \<times> nat \<times> nat \<times> nat) option" where
  "re_search pat s = re_search_from pat s 0"

definition backtick :: pychar where "backtick = 96"
definition dquote :: pychar where "dquote = 34"
definition backslash :: pychar where "backslash = 92"
definition lbrace :: pychar where "lbrace = 123"
definition rbrace :: pychar where "rbrace = 125"
definition colon :: pychar where "colon = 58"

text \<open>The pattern \<^verbatim>\<open>```json\s*([\s\S]*?)\s*```\<close>.\<close>

definition FENCE_RE :: "item list" where
  "FENCE_RE =
     map Lit (lit ''```json'') @
     [Star isspace, GroupOpen, LazyStar (\<lambda>c. True), GroupClose, Star isspace] @
     map Lit (lit ''```'')"

text \<open>The pattern \<^verbatim>\<open>\{\s*"[^"]+"\s*:\<close>.\<close>

definition OBJECT_RE :: "item list" where
  "OBJECT_RE =
     [Lit lbrace, Star isspace, Lit dquote, Plus (\<lambda>c. c \<noteq> dquote), Lit dquote,
      Star isspace, Lit colon]"

section \<open>JSON values and exceptions\<close>

text \<open>
  What \<open>json.loads\<close> returns. A \<open>dict\<close> keeps its items in insertion order, so an object
  is the list of its items. A float is kept as its lexeme: nothing here computes with it.
\<close>

datatype json =
    JNull
  | JBool bool
  | JInt int
  | JFloat pystr
  | JString pystr
  | JArray "json list"
  | JObject "(pystr \<times> json) list"

datatype exn =
    ValueError string
  | AttributeError string
  | RuntimeError string
  | LibraryError string

section \<open>The response parser\<close>

text \<open>
  The loop \<open>for i in range(start_pos, len(response_text))\<close> of
  \<open>parse_json_from_response\<close>, over the characters from \<open>i\<close> on. \<open>Some e\<close> is the
  \<open>break\<close> with \<open>end_pos = e\<close>; \<open>None\<close> is the loop running to the end of the text,
  which leaves \<open>end_pos = start_pos\<close>.
\<close>

fun brace_scan :: "pystr \<Rightarrow> nat \<Rightarrow> int \<Rightarrow> bool \<Rightarrow> bool \<Rightarrow> nat option" where
  "brace_scan [] i brace_count in_string escape_next = None"
| "brace_scan (char # rest) i brace_count in_string escape_next =
     (if escape_next then brace_scan rest (Suc i) brace_count in_string False
      else if char = backslash then brace_scan rest (Suc i) brace_count in_string True
      else
        let in_string' = (if char = dquote \<and> \<not> escape_next then \<not> in_string else in_string)
        in
          if \<not> in_string' then
            (if char = lbrace then brace_scan rest (Suc i) (brace_count + 1) in_string' False
             else if char = rbrace then
               (if brace_count - 1 = 0 then Some (i + 1)
                else brace_scan rest (Suc i) (brace_count - 1) in_string' False)
             else brace_scan rest (Suc i) brace_count in_string' False)
          else brace_scan rest (Suc i) brace_count in_string' False)"

text \<open>
  The text handed to \<open>json.loads\<close>, or the \<open>ValueError\<close> raised before decoding.
\<close>

definition find_json_str :: "pystr \<Rightarrow> exn + pystr" where
  "find_json_str response_text =
     (case re_search FENCE_RE response_text of
        Some (_, _, gs, ge) \<Rightarrow> Inr (slice response_text gs ge)
      | None \<Rightarrow>
          (case re_search OBJECT_RE response_text of
             Some (start_pos, _) \<Rightarrow>
               (case brace_scan (drop start_pos response_text) start_pos 0 False False of
                  Some end_pos \<Rightarrow>
                    (if end_pos > start_pos then Inr (slice response_text start_pos end_pos)
                     else Inl (ValueError ''Could not find complete JSON in response''))
                | None \<Rightarrow> Inl (ValueError ''Could not find complete JSON in response''))
           | None \<Rightarrow> Inl (ValueError ''Could not find JSON in response'')))"

text \<open>
  \<open>parse_json_from_response\<close>. \<open>json.loads\<close> is the standard library's decoder, taken as
  the parameter \<open>json_loads\<close>. Every exception raised inside the \<open>try\<close>, the decoder's
  included, is caught and replaced by the one \<open>ValueError\<close> of the \<open>except\<close> clause; this
  is the error the specification calls MalformedResponse.
\<close>

definition parse_json_from_response :: "(pystr \<Rightarrow> exn + json) \<Rightarrow> pystr \<Rightarrow> exn + json" where
  "parse_json_from_response json_loads response_text =
     (case find_json_str response_text of
        Inl e \<Rightarrow> Inl (ValueError ''Failed to parse analysis results'')
      | Inr json_str \<Rightarrow>
          (case json_loads json_str of
             Inl e \<Rightarrow> Inl (ValueError ''Failed to parse analysis results'')
           | Inr data \<Rightarrow> Inr data))"

text \<open>
  The scanner in the words of the specification: a state machine with a brace-depth
  counter, a string-literal toggle and a pending-escape flag, run over a whole string
  with no early exit. \<open>depth_after s\<close> is the counter after the characters of \<open>s\<close>.
\<close>

type_synonym scan_state = "int \<times> bool \<times> bool"

fun scan_step :: "scan_state \<Rightarrow> pychar \<Rightarrow> scan_state" where
  "scan_step (depth, in_string, escape) c =
     (if escape then (depth, in_string, False)
      else if c = backslash then (depth, in_string, True)
      else if c = dquote then (depth, \<not> in_string, False)
      else if in_string then (depth, in_string, False)
      else if c = lbrace then (depth + 1, in_string, False)
      else if c = rbrace then (depth - 1, in_string, False)
      else (depth, in_string, False))"

definition scan_from :: "scan_state \<Rightarrow> pystr \<Rightarrow> scan_state" where
  "scan_from st s = foldl scan_step st s"

definition depth_after :: "pystr \<Rightarrow> int" where
  "depth_after s = fst (scan_from (0, False, False) s)"

text \<open>
  The two patterns in the words of the specification. \<open>matches\<close> tells whether a pattern
  matches at the head of a string, leaving the positions out. \<open>object_start\<close> reads the
  object pattern from left to right: an opening brace, optional whitespace, a quote, a
  non-empty key without quotes, a quote, optional whitespace, a colon. \<open>has_json_fence\<close>
  holds of a text with an opening \<open>```json\<close> and three backticks somewhere after it,
  \<open>has_object_start\<close> of a text in which the object pattern matches somewhere.
\<close>

fun matches :: "item list \<Rightarrow> pystr \<Rightarrow> bool" where
  "matches [] s = True"
| "matches (Lit c # r) [] = False"
| "matches (Lit c # r) (x # xs) = (x = c \<and> matches r xs)"
| "matches (Star P # r) [] = matches r []"
| "matches (Star P # r) (x # xs) = ((P x \<and> matches (Star P # r) xs) \<or> matches r (x # xs))"
| "matches (Plus P # r) [] = False"
| "matches (Plus P # r) (x # xs) = (P x \<and> matches (Star P # r) xs)"
| "matches (LazyStar P # r) [] = matches r []"
| "matches (LazyStar P # r) (x # xs) = (matches r (x # xs) \<or> (P x \<and> matches (LazyStar P # r) xs))"
| "matches (GroupOpen # r) s = matches r s"
| "matches (GroupClose # r) s = matches r s"

definition object_start :: "pystr \<Rightarrow> bool" where
  "object_start s \<longleftrightarrow>
     (case s of
        [] \<Rightarrow> False
      | c # after_brace \<Rightarrow>
          c = lbrace \<and>
          (case dropWhile isspace after_brace of
             [] \<Rightarrow> False
           | q # after_quote \<Rightarrow>
               q = dquote \<and> takeWhile (\<lambda>c. c \<noteq> dquote) after_quote \<noteq> [] \<and>
               (case dropWhile (\<lambda>c. c \<noteq> dquote) after_quote of
                  [] \<Rightarrow> False
                | q' # after_key \<Rightarrow>
                    (case dropWhile isspace after_key of
                       [] \<Rightarrow> False
                     | c' # rest \<Rightarrow> c' = colon))))"

definition occurs_at :: "pystr \<Rightarrow> pystr \<Rightarrow> nat \<Rightarrow> bool" where
  "occurs_at p s i \<longleftrightarrow> i + length p \<le> length s \<and> take (length p) (drop i s) = p"

definition has_json_fence :: "pystr \<Rightarrow> bool" where
  "has_json_fence s \<longleftrightarrow>
     (\<exists>i \<in> {0..length s}. \<exists>j \<in> {i + 7..length s}.
        occurs_at (lit ''```json'') s i \<and> occurs_at (lit ''```'') s j)"

definition has_object_start :: "pystr \<Rightarrow> bool" where
  "has_object_start s \<longleftrightarrow> (\<exists>i \<in> {0..length s}. object_start (drop i s))"

text \<open>
  \<open>fence_close s k\<close>: from position \<open>k\<close> on, \<open>s\<close> has optional whitespace and then three
  backticks, which is where the lazy group of the fence pattern may end.
\<close>

definition fence_close :: "pystr \<Rightarrow> nat \<Rightarrow> bool" where
  "fence_close s k \<longleftrightarrow>
     occurs_at (lit ''```'') s (k + length (takeWhile isspace (drop k s)))"

section \<open>A decoder for the examples\<close>

text \<open>
  \<open>json.loads\<close> is a parameter of the model, and every theorem below holds for every
  decoder. The examples need one to run: \<open>json_decode\<close> decodes the fragment of JSON
  with \<open>null\<close>, \<open>true\<close>, \<open>false\<close>, integers, strings without escapes, arrays and objects,
  and rejects everything else. A repeated key keeps its first place and its last value, as
  in a \<open>dict\<close>. The fuel bounds the number of nested calls.
\<close>

definition json_ws :: "pychar \<Rightarrow> bool" where
  "json_ws c \<longleftrightarrow> c = 32 \<or> c = 9 \<or> c = 10 \<or> c = 13"

definition skip_ws :: "pystr \<Rightarrow> pystr" where
  "skip_ws s = dropWhile json_ws s"

fun dict_set :: "(pystr \<times> json) list \<Rightarrow> pystr \<Rightarrow> json \<Rightarrow> (pystr \<times> json) list" where
  "dict_set [] k v = [(k, v)]"
| "dict_set (p # ps) k v = (if fst p = k then (k, v) # ps else p # dict_set ps k v)"

definition decode_string :: "pystr \<Rightarrow> (pystr \<times> pystr) option" where
  "decode_string s =
     (let body = takeWhile (\<lambda>c. c \<noteq> dquote) s; rest = dropWhile (\<lambda>c. c \<noteq> dquote) s
      in if rest = [] \<or> (\<exists>c \<in> set body. c = backslash \<or> c < 32) then None
         else Some (body, tl rest))"

definition is_digit :: "pychar \<Rightarrow> bool" where
  "is_digit c \<longleftrightarrow> 48 \<le> c \<and> c \<le> 57"

definition digits_value :: "pystr \<Rightarrow> int" where
  "digits_value ds = foldl (\<lambda>acc c. 10 * acc + (int c - 48)) 0 ds"

definition decode_nat :: "pystr \<Rightarrow> (int \<times> pystr) option" where
  "decode_nat s =
     (let ds = (if take 1 s = [48] then [48] else takeWhile is_digit s);
          rest = drop (length ds) s
      in if ds = [] \<or> (rest \<noteq> [] \<and> hd rest \<in> {46, 69, 101}) then None
         else Some (digits_value ds, rest))"

definition decode_int :: "pystr \<Rightarrow> (json \<times> pystr) option" where
  "decode_int s =
     (if take 1 s = [45] then map_option (\<lambda>(n, r). (JInt (- n), r)) (decode_nat (drop 1 s))
      else map_option (\<lambda>(n, r). (JInt n, r)) (decode_nat s))"

fun decode_value :: "nat \<Rightarrow> pystr \<Rightarrow> (json \<times> pystr) option"
  and decode_elements :: "nat \<Rightarrow> json list \<Rightarrow> pystr \<Rightarrow> (json \<times> pystr) option"
  and decode_members :: "nat \<Rightarrow> (pystr \<times> json) list \<Rightarrow> pystr \<Rightarrow> (json \<times> pystr) option"
where
  "decode_value 0 s = None"
| "decode_value (Suc n) s =
     (if take 1 s = [dquote] then
        map_option (\<lambda>(str, r). (JString str, r)) (decode_string (drop 1 s))
      else if take 1 s = [lbrace] then
        (if take 1 (skip_ws (drop 1 s)) = [rbrace] then Some (JObject [], drop 1 (skip_ws (drop 1 s)))
         else decode_members n [] (skip_ws (drop 1 s)))
      else if take 1 s = [91] then
        (if take 1 (skip_ws (drop 1 s)) = [93] then Some (JArray [], drop 1 (skip_ws (drop 1 s)))
         else decode_elements n [] (skip_ws (drop 1 s)))
      else if startswith s (lit ''null'') then Some (JNull, drop 4 s)
      else if startswith s (lit ''true'') then Some (JBool True, drop 4 s)
      else if startswith s (lit ''false'') then Some (JBool False, drop 5 s)
      else decode_int s)"
| "decode_elements 0 acc s = None"
| "decode_elements (Suc n) acc s =
     (case decode_value n s of
        None \<Rightarrow> None
      | Some (v, r) \<Rightarrow>
          (if take 1 (skip_ws r) = [44] then decode_elements n (acc @ [v]) (skip_ws (drop 1 (skip_ws r)))
           else if take 1 (skip_ws r) = [93] then Some (JArray (acc @ [v]), drop 1 (skip_ws r))
           else None))"
| "decode_members 0 acc s = None"
| "decode_members (Suc n) acc s =
     (if take 1 s = [dquote] then
        (case decode_string (drop 1 s) of
           None \<Rightarrow> None
         | Some (k, r1) \<Rightarrow>
             (if take 1 (skip_ws r1) = [colon] then
                (case decode_value n (skip_ws (drop 1 (skip_ws r1))) of
                   None \<Rightarrow> None
                 | Some (v, r2) \<Rightarrow>
                     (if take 1 (skip_ws r2) = [44] then
                        decode_members n (dict_set acc k v) (skip_ws (drop 1 (skip_ws r2)))
                      else if take 1 (skip_ws r2) = [rbrace] then
                        Some (JObject (dict_set acc k v), drop 1 (skip_ws r2))
                      else None))
              else None))
      else None)"

definition json_decode :: "pystr \<Rightarrow> exn + json" where
  "json_decode s =
     (case decode_value (Suc (length s)) (skip_ws s) of
        None \<Rightarrow> Inl (ValueError ''Expecting value'')
      | Some (v, r) \<Rightarrow> (if skip_ws r = [] then Inr v else Inl (ValueError ''Extra data'')))"

section \<open>The document preprocessor\<close>

text \<open>
  The libraries the repository calls are parameters of the model: PyMuPDF (\<open>fitz\<close>),
  \<open>pdf2image\<close>, Pillow with \<open>base64\<close>, \<open>json\<close> and the Gemini client. A call that can
  raise inside a \<open>try\<close> of the source returns a sum. \<open>fitz_open\<close> gives, for a document that
  opens, what \<open>page.get_text()\<close> does on each page in order. \<open>generate\<close> is the oracle: it
  sees every request sent so far, the current one last, so that its replies may differ
  from call to call. \<open>'img\<close> is the type of a rendered page. Three calls are taken to
  succeed: saving a rendered page as JPEG and encoding it (\<open>jpeg_base64\<close>), \<open>json.dumps\<close>
  on a value that \<open>json.loads\<close> returned, and the construction of the client object before
  the retry loop, which sends nothing.
\<close>

type_synonym bytes = "char list"

datatype part = TextPart pystr | ImagePart pystr pystr

record request =
  contents :: "part list"
  temperature :: real
  top_p :: real
  top_k :: nat
  max_output_tokens :: nat

record 'img libs =
  fitz_open :: "bytes \<Rightarrow> exn + (exn + pystr) list"
  convert_from_bytes :: "bytes \<Rightarrow> exn + 'img list"
  jpeg_base64 :: "'img \<Rightarrow> pystr"
  json_loads :: "pystr \<Rightarrow> exn + json"
  json_dumps :: "json \<Rightarrow> pystr"
  generate :: "request list \<Rightarrow> exn + pystr"

text \<open>The loop of \<open>extract_text_from_pdf\<close> over the pages, \<open>text\<close> the accumulator.\<close>

fun get_text_pages :: "(exn + pystr) list \<Rightarrow> pystr \<Rightarrow> exn + pystr" where
  "get_text_pages [] text = Inr text"
| "get_text_pages (page # pages) text =
     (case page of Inl e \<Rightarrow> Inl e | Inr t \<Rightarrow> get_text_pages pages (text @ t))"

definition extract_text_from_pdf :: "'img libs \<Rightarrow> bytes \<Rightarrow> pystr" where
  "extract_text_from_pdf L pdf_bytes =
     (case fitz_open L pdf_bytes of
        Inl e \<Rightarrow> []
      | Inr pdf_document \<Rightarrow>
          (case get_text_pages pdf_document [] of Inl e \<Rightarrow> [] | Inr text \<Rightarrow> text))"

text \<open>\<open>xs[:n]\<close> for a Python integer \<open>n\<close>: a negative \<open>n\<close> counts from the end.\<close>

definition slice_to :: "'a list \<Rightarrow> int \<Rightarrow> 'a list" where
  "slice_to xs n = (if n < 0 then take (nat (int (length xs) + n)) xs else take (nat n) xs)"

definition convert_pdf_to_images :: "'img libs \<Rightarrow> bytes \<Rightarrow> int \<Rightarrow> 'img list" where
  "convert_pdf_to_images L pdf_bytes max_pages =
     (case convert_from_bytes L pdf_bytes of
        Inl e \<Rightarrow> []
      | Inr images \<Rightarrow> slice_to images max_pages)"

text \<open>
  \<open>prepare_vision_content\<close>. The f-string formats \<open>prompt\<close> with \<open>str\<close>, so the default
  \<open>None\<close> prints as \<open>None\<close>; \<open>if job_description\<close> fails for \<open>None\<close> and for the empty string.
  The call \<open>convert_pdf_to_images(pdf_bytes)\<close> takes the default \<open>max_pages = 5\<close>.
\<close>

definition format_str :: "pystr option \<Rightarrow> pystr" where
  "format_str p = (case p of None \<Rightarrow> lit ''None'' | Some s \<Rightarrow> s)"

definition RESUME_LABEL :: pystr where
  "RESUME_LABEL = lit ''\<newline>\<newline>Resume text content: ''"

definition ELLIPSIS :: pystr where
  "ELLIPSIS = lit ''...''"

definition JOB_LABEL :: pystr where
  "JOB_LABEL = lit ''\<newline>\<newline>JOB DESCRIPTION:\<newline>''"

definition prepare_vision_content ::
  "'img libs \<Rightarrow> bytes \<Rightarrow> pystr option \<Rightarrow> pystr option \<Rightarrow> bool \<Rightarrow> part list" where
  "prepare_vision_content L pdf_bytes job_description prompt include_images =
     (let text_content = extract_text_from_pdf L pdf_bytes;
          text0 = format_str prompt @ RESUME_LABEL @ take 10000 text_content @ ELLIPSIS;
          text1 = (case job_description of
                     None \<Rightarrow> text0
                   | Some jd \<Rightarrow> (if jd \<noteq> [] then text0 @ JOB_LABEL @ jd else text0));
          image_parts =
            (if include_images then
               (let images = convert_pdf_to_images L pdf_bytes 5
                in if images = [] then []
                   else map (\<lambda>img. ImagePart (lit ''image/jpeg'') (jpeg_base64 L img))
                          (slice_to images 3))
             else [])
      in TextPart text1 # image_parts)"

fun is_text :: "part \<Rightarrow> bool" where
  "is_text (TextPart t) = True"
| "is_text (ImagePart m d) = False"

section \<open>The completion client\<close>

text \<open>
  The world a request runs in: the requests sent to the oracle so far and the durations
  given to \<open>time.sleep\<close> so far, both in order.
\<close>

record world =
  calls :: "request list"
  sleeps :: "nat list"

definition generate_content :: "'img libs \<Rightarrow> request \<Rightarrow> world \<Rightarrow> (exn + pystr) \<times> world" where
  "generate_content L req w =
     (generate L (calls w @ [req]), w\<lparr>calls := calls w @ [req]\<rparr>)"

definition sleep :: "nat \<Rightarrow> world \<Rightarrow> world" where
  "sleep seconds w = w\<lparr>sleeps := sleeps w @ [seconds]\<rparr>"

definition max_retries :: nat where
  "max_retries = 3"

definition generation_request :: "part list \<Rightarrow> real \<Rightarrow> request" where
  "generation_request content_parts temp =
     \<lparr>contents = content_parts, temperature = temp, top_p = 0.95, top_k = 40,
      max_output_tokens = 8192\<rparr>"

text \<open>
  The \<open>while retry_count < max_retries\<close> loop of \<open>get_gemini_response\<close>. The statement after
  the loop raises a \<open>RuntimeError\<close>.
\<close>

function retry_loop :: "'img libs \<Rightarrow> request \<Rightarrow> nat \<Rightarrow> world \<Rightarrow> (exn + pystr) \<times> world" where
  "retry_loop L req retry_count w =
     (if retry_count < max_retries then
        (case generate_content L req w of
           (Inr text, w') \<Rightarrow> (Inr text, w')
         | (Inl e, w') \<Rightarrow>
             (if retry_count + 1 \<ge> max_retries then (Inl e, w')
              else retry_loop L req (retry_count + 1) (sleep (2 ^ (retry_count + 1)) w')))
      else
        (Inl (RuntimeError ''Failed to get response from Gemini after multiple attempts''), w))"
  by pat_completeness auto
termination
  by (relation "measure (\<lambda>(L, req, retry_count, w). max_retries - retry_count)") auto

definition get_gemini_response ::
  "'img libs \<Rightarrow> part list \<Rightarrow> real \<Rightarrow> world \<Rightarrow> (exn + pystr) \<times> world" where
  "get_gemini_response L content_parts temp w =
     retry_loop L (generation_request content_parts temp) 0 w"

section \<open>The analysis chain\<close>





text \<open>
  \<open>json.dumps(x, indent=2)\<close> is the library function \<open>json_dumps\<close>. The comprehension over
  \<open>final_analysis.items()\<close> keeps the items whose key does not start with an underscore;
  on a value that is not a \<open>dict\<close> the attribute \<open>items\<close> is missing.
\<close>

definition client_response :: "json \<Rightarrow> exn + (pystr \<times> json) list" where
  "client_response final_analysis =
     (case final_analysis of
        JObject items \<Rightarrow> Inr (filter (\<lambda>(k, v). \<not> startswith k (lit ''_'')) items)
      | _ \<Rightarrow> Inl (AttributeError ''items''))"



section \<open>The two endpoints\<close>

text \<open>
  A reply of an endpoint is the JSON body of a 200 or an \<open>HTTPException\<close> with its status
  code and detail. \<open>str(e)\<close> of an exception is its message.
\<close>

datatype response = JSONResponse "(pystr \<times> json) list" | HTTPException nat string










section \<open>Examples\<close>

definition unfenced_reply :: pystr where
  "unfenced_reply = lit ''Sure! {\"overall_score\": 82, \"notes\": \"uses {braces} inside\"} Hope that helps.''"

definition fenced_reply :: pystr where
  "fenced_reply = lit ''Here you go:\<newline>```json\<newline>{\"a\": 1}\<newline>```\<newline>Thanks''"

definition no_json_reply :: pystr where
  "no_json_reply = lit ''I could not analyze this.''"

definition bad_fence_reply :: pystr where
  "bad_fence_reply = lit ''```json {bad ``` and {\"a\": 1}''"

text \<open>
  Stub libraries for the examples: one document, \<open>%PDF\<close>, of one page of text that
  renders to seven images, every other input failing to open; the decoder of the
  examples; an oracle that answers the \<open>n\<close>-th request with the \<open>n\<close>-th scripted reply.
\<close>

definition scripted :: "(exn + pystr) list \<Rightarrow> request list \<Rightarrow> exn + pystr" where
  "scripted replies sent =
     (if 0 < length sent \<and> length sent \<le> length replies then replies ! (length sent - 1)
      else Inl (LibraryError ''no reply scripted''))"

definition resume_text :: pystr where
  "resume_text = lit ''John Doe\<newline>Software Engineer''"

definition demo_libs :: "(exn + pystr) list \<Rightarrow> nat libs" where
  "demo_libs replies =
     \<lparr>fitz_open = (\<lambda>b. if b = ''%PDF'' then Inr [Inr resume_text]
                         else Inl (LibraryError ''cannot open document'')),
      convert_from_bytes = (\<lambda>b. if b = ''%PDF'' then Inr [0, 1, 2, 3, 4, 5, 6]
                                  else Inl (LibraryError ''unable to get page count'')),
      jpeg_base64 = (\<lambda>img. [65 + img]),
      json_loads = json_decode,
      json_dumps = (\<lambda>j. lit ''null''),
      generate = scripted replies\<rparr>"

definition empty_world :: world where
  "empty_world = \<lparr>calls = [], sleeps = []\<rparr>"

definition boom :: exn where
  "boom = LibraryError ''503 service unavailable''"






section \<open>Properties of the search and of the scan\<close>

lemma re_search_from_Some:
  "re_search_from pat s pos = Some (st, m) \<Longrightarrow>
     pos \<le> st \<and> st \<le> pos + length s \<and> bt pat (drop (st - pos) s) st (st, st) = Some m \<and>
     (\<forall>i. pos \<le> i \<and> i < st \<longrightarrow> bt pat (drop (i - pos) s) i (i, i) = None)"
proof (induction s arbitrary: pos)
  case Nil
  then show ?case by (auto split: option.splits)
next
  case (Cons x xs)
  show ?case
  proof (cases "bt pat (x # xs) pos (pos, pos)")
    case (Some m')
    with Cons.prems show ?thesis by auto
  next
    case None
    with Cons.prems have r: "re_search_from pat xs (Suc pos) = Some (st, m)" by simp
    from Cons.IH[OF r] have a: "Suc pos \<le> st" "st \<le> Suc pos + length xs"
      "bt pat (drop (st - Suc pos) xs) st (st, st) = Some m"
      "\<forall>i. Suc pos \<le> i \<and> i < st \<longrightarrow> bt pat (drop (i - Suc pos) xs) i (i, i) = None"
      by auto
    have d: "drop (st - pos) (x # xs) = drop (st - Suc pos) xs"
      using a(1) by (simp add: drop_Cons' )
    have "\<And>i. pos \<le> i \<Longrightarrow> i < st \<Longrightarrow> bt pat (drop (i - pos) (x # xs)) i (i, i) = None"
    proof -
      fix i assume i: "pos \<le> i" "i < st"
      show "bt pat (drop (i - pos) (x # xs)) i (i, i) = None"
      proof (cases "i = pos")
        case True
        then show ?thesis using None by simp
      next
        case False
        with i have "Suc pos \<le> i" by simp
        with a(4) i have "bt pat (drop (i - Suc pos) xs) i (i, i) = None" by blast
        moreover have "drop (i - pos) (x # xs) = drop (i - Suc pos) xs"
          using \<open>Suc pos \<le> i\<close> by (simp add: drop_Cons')
        ultimately show ?thesis by simp
      qed
    qed
    with a d show ?thesis by auto
  qed
qed

lemma re_search_from_None:
  "re_search_from pat s pos = None \<Longrightarrow> i \<le> length s \<Longrightarrow>
     bt pat (drop i s) (pos + i) (pos + i, pos + i) = None"
proof (induction s arbitrary: pos i)
  case Nil
  then show ?case by (auto split: option.splits)
next
  case (Cons x xs)
  from Cons.prems(1) have h: "bt pat (x # xs) pos (pos, pos) = None"
    and r: "re_search_from pat xs (Suc pos) = None"
    by (auto split: option.splits)
  show ?case
  proof (cases i)
    case 0
    then show ?thesis using h by simp
  next
    case (Suc j)
    with Cons.prems(2) have "j \<le> length xs" by simp
    from Cons.IH[OF r this] show ?thesis using Suc by simp
  qed
qed

lemmas chars = backtick_def dquote_def backslash_def lbrace_def rbrace_def colon_def

lemma bt_Lit_head: "bt (Lit c # r) s pos g = Some m \<Longrightarrow> \<exists>xs. s = c # xs"
  by (cases s) (auto split: if_splits)

lemma brace_scan_sound:
  "1 \<le> d \<Longrightarrow> brace_scan s i d ins esc = Some e \<Longrightarrow>
     \<exists>n. e = i + n \<and> 0 < n \<and> n \<le> length s \<and>
         fst (scan_from (d, ins, esc) (take n s)) = 0 \<and>
         (\<forall>k < n. 1 \<le> fst (scan_from (d, ins, esc) (take k s)))"
proof (induction s arbitrary: i d ins esc)
  case Nil
  then show ?case by simp
next
  case (Cons c rest)
  obtain d' ins' esc' where st: "scan_step (d, ins, esc) c = (d', ins', esc')"
    by (cases "scan_step (d, ins, esc) c") auto
  show ?case
  proof (cases "d' = 0")
    case True
    with st Cons.prems have "e = i + 1"
      by (auto simp: Let_def chars split: if_splits)
    moreover have "fst (scan_from (d, ins, esc) (take 1 (c # rest))) = 0"
      using st True by (simp add: scan_from_def)
    moreover have "\<forall>k < (1::nat). 1 \<le> fst (scan_from (d, ins, esc) (take k (c # rest)))"
      using Cons.prems(1) by (simp add: scan_from_def)
    ultimately show ?thesis by (intro exI[of _ 1]) simp
  next
    case False
    with st Cons.prems(1) have d': "1 \<le> d'" by (auto split: if_splits)
    from st False Cons.prems have r: "brace_scan rest (Suc i) d' ins' esc' = Some e"
      by (auto simp: Let_def chars split: if_splits)
    from Cons.IH[OF d' r] obtain n where n: "e = Suc i + n" "0 < n" "n \<le> length rest"
      "fst (scan_from (d', ins', esc') (take n rest)) = 0"
      "\<forall>k < n. 1 \<le> fst (scan_from (d', ins', esc') (take k rest))"
      by blast
    have "\<forall>k < Suc n. 1 \<le> fst (scan_from (d, ins, esc) (take k (c # rest)))"
    proof (intro allI impI)
      fix k assume "k < Suc n"
      show "1 \<le> fst (scan_from (d, ins, esc) (take k (c # rest)))"
      proof (cases k)
        case 0
        then show ?thesis using Cons.prems(1) by (simp add: scan_from_def)
      next
        case (Suc j)
        with \<open>k < Suc n\<close> n(5) have "1 \<le> fst (scan_from (d', ins', esc') (take j rest))" by simp
        then show ?thesis using Suc st by (simp add: scan_from_def)
      qed
    qed
    moreover have "fst (scan_from (d, ins, esc) (take (Suc n) (c # rest))) = 0"
      using n(4) st by (simp add: scan_from_def)
    ultimately show ?thesis using n(1,2,3) by (intro exI[of _ "Suc n"]) simp
  qed
qed

lemma brace_scan_None:
  "1 \<le> d \<Longrightarrow> brace_scan s i d ins esc = None \<Longrightarrow> k \<le> length s \<Longrightarrow>
     1 \<le> fst (scan_from (d, ins, esc) (take k s))"
proof (induction s arbitrary: i d ins esc k)
  case Nil
  then show ?case by (simp add: scan_from_def)
next
  case (Cons c rest)
  obtain d' ins' esc' where st: "scan_step (d, ins, esc) c = (d', ins', esc')"
    by (cases "scan_step (d, ins, esc) c") auto
  from st Cons.prems(1,2) have d': "1 \<le> d'" and r: "brace_scan rest (Suc i) d' ins' esc' = None"
    by (auto simp: Let_def chars split: if_splits)
  show ?case
  proof (cases k)
    case 0
    then show ?thesis using Cons.prems(1) by (simp add: scan_from_def)
  next
    case (Suc j)
    with Cons.prems(3) have "j \<le> length rest" by simp
    from Cons.IH[OF d' r this] show ?thesis using Suc st by (simp add: scan_from_def)
  qed
qed

lemma brace_scan_in_string:
  "dquote \<notin> set body \<Longrightarrow> backslash \<notin> set body \<Longrightarrow>
     brace_scan (body @ rest) i d True False = brace_scan rest (i + length body) d True False"
  by (induction body arbitrary: i) (auto simp: Let_def)

lemma brace_scan_escaped:
  "brace_scan (backslash # c # rest) i d ins False = brace_scan rest (i + 2) d ins False"
  by simp

lemmas regex_eval = re_search_def FENCE_RE_def OBJECT_RE_def lit_def chars isspace_def

section \<open>The patterns in the words of the specification\<close>

lemma bt_matches: "(bt pat s pos g \<noteq> None) = matches pat s"
  by (induction pat s pos g rule: bt.induct) (auto split: option.splits)

lemma re_search_from_iff:
  "(re_search_from pat s pos \<noteq> None) = (\<exists>i \<le> length s. matches pat (drop i s))"
proof (induction s arbitrary: pos)
  case Nil
  show ?case using bt_matches[of pat "[]" pos "(pos, pos)"] by (auto split: option.splits)
next
  case (Cons x xs)
  have "(\<exists>i \<le> length (x # xs). matches pat (drop i (x # xs))) \<longleftrightarrow>
        matches pat (x # xs) \<or> (\<exists>i \<le> length xs. matches pat (drop i xs))"
  proof
    assume "\<exists>i \<le> length (x # xs). matches pat (drop i (x # xs))"
    then obtain i where i: "i \<le> length (x # xs)" "matches pat (drop i (x # xs))" by blast
    show "matches pat (x # xs) \<or> (\<exists>i \<le> length xs. matches pat (drop i xs))"
    proof (cases i)
      case 0
      with i show ?thesis by simp
    next
      case (Suc j)
      with i show ?thesis by auto
    qed
  next
    assume "matches pat (x # xs) \<or> (\<exists>i \<le> length xs. matches pat (drop i xs))"
    then show "\<exists>i \<le> length (x # xs). matches pat (drop i (x # xs))"
    proof
      assume "matches pat (x # xs)"
      then show ?thesis by (intro exI[of _ 0]) simp
    next
      assume "\<exists>i \<le> length xs. matches pat (drop i xs)"
      then obtain i where "i \<le> length xs" "matches pat (drop i xs)" by blast
      then show ?thesis by (intro exI[of _ "Suc i"]) simp
    qed
  qed
  then show ?case
    using Cons.IH[of "Suc pos"] bt_matches[of pat "x # xs" pos "(pos, pos)"]
    by (auto split: option.splits)
qed

lemma matches_Star_Lit:
  "\<not> P c \<Longrightarrow> matches (Star P # Lit c # r) s = matches (Lit c # r) (dropWhile P s)"
  by (induction s) auto

lemma matches_Plus_Lit:
  "\<not> P c \<Longrightarrow> matches (Plus P # Lit c # r) s =
     (takeWhile P s \<noteq> [] \<and> matches (Lit c # r) (dropWhile P s))"
  by (cases s) (auto simp: matches_Star_Lit)

lemma matches_Lit: "matches (Lit c # r) s = (\<exists>xs. s = c # xs \<and> matches r xs)"
  by (cases s) auto

lemma matches_lits:
  "matches (map Lit p @ r) s =
     (length p \<le> length s \<and> take (length p) s = p \<and> matches r (drop (length p) s))"
proof (induction p arbitrary: s)
  case Nil
  show ?case by simp
next
  case (Cons c p)
  show ?case by (cases s) (auto simp: Cons.IH)
qed

lemma matches_LazyStar_any:
  "matches (LazyStar (\<lambda>c. True) # r) s = (\<exists>k \<le> length s. matches r (drop k s))"
proof (induction s)
  case Nil
  show ?case by simp
next
  case (Cons x xs)
  have "(\<exists>k \<le> length (x # xs). matches r (drop k (x # xs))) \<longleftrightarrow>
        matches r (x # xs) \<or> (\<exists>k \<le> length xs. matches r (drop k xs))"
  proof
    assume "\<exists>k \<le> length (x # xs). matches r (drop k (x # xs))"
    then obtain k where k: "k \<le> length (x # xs)" "matches r (drop k (x # xs))" by blast
    show "matches r (x # xs) \<or> (\<exists>k \<le> length xs. matches r (drop k xs))"
    proof (cases k)
      case 0
      with k show ?thesis by simp
    next
      case (Suc j)
      with k show ?thesis by auto
    qed
  next
    assume "matches r (x # xs) \<or> (\<exists>k \<le> length xs. matches r (drop k xs))"
    then show "\<exists>k \<le> length (x # xs). matches r (drop k (x # xs))"
    proof
      assume "matches r (x # xs)"
      then show ?thesis by (intro exI[of _ 0]) simp
    next
      assume "\<exists>k \<le> length xs. matches r (drop k xs)"
      then obtain k where "k \<le> length xs" "matches r (drop k xs)" by blast
      then show ?thesis by (intro exI[of _ "Suc k"]) simp
    qed
  qed
  then show ?case using Cons.IH by simp
qed

lemma matches_Star_some:
  "matches (Star P # r) s \<Longrightarrow> \<exists>k \<le> length s. matches r (drop k s)"
proof (induction s)
  case Nil
  then show ?case by simp
next
  case (Cons x xs)
  from Cons.prems have "(P x \<and> matches (Star P # r) xs) \<or> matches r (x # xs)" by simp
  then show ?case
  proof
    assume "P x \<and> matches (Star P # r) xs"
    with Cons.IH obtain k where "k \<le> length xs" "matches r (drop k xs)" by blast
    then show ?thesis by (intro exI[of _ "Suc k"]) simp
  next
    assume "matches r (x # xs)"
    then show ?thesis by (intro exI[of _ 0]) simp
  qed
qed

lemma matches_Star_zero: "matches r s \<Longrightarrow> matches (Star P # r) s"
  by (cases s) auto

lemma dropWhile_neq_head: "dropWhile (\<lambda>c. c \<noteq> d) xs = y # ys \<Longrightarrow> y = d"
  using hd_dropWhile[of "\<lambda>c. c \<noteq> d" xs] by auto

lemma object_re_iff: "matches OBJECT_RE s = object_start s"
proof -
  have sp: "\<not> isspace dquote" "\<not> isspace colon"
    by (simp_all add: isspace_def dquote_def colon_def)
  have star_colon: "matches (Star isspace # Lit colon # r) t =
      matches (Lit colon # r) (dropWhile isspace t)" for r t
    using sp(2) by (rule matches_Star_Lit)
  have star_quote: "matches (Star isspace # Lit dquote # r) t =
      matches (Lit dquote # r) (dropWhile isspace t)" for r t
    using sp(1) by (rule matches_Star_Lit)
  have plus_quote: "matches (Plus (\<lambda>c. c \<noteq> dquote) # Lit dquote # r) t =
      (takeWhile (\<lambda>c. c \<noteq> dquote) t \<noteq> [] \<and>
       matches (Lit dquote # r) (dropWhile (\<lambda>c. c \<noteq> dquote) t))" for r t
    by (rule matches_Plus_Lit) simp
  have tail: "matches [Star isspace, Lit colon] t =
      (case dropWhile isspace t of [] \<Rightarrow> False | c' # rest \<Rightarrow> c' = colon)" for t
  proof (cases "dropWhile isspace t")
    case Nil
    then show ?thesis by (simp only: star_colon matches.simps list.case)
  next
    case (Cons c' rest)
    then show ?thesis by (simp only: star_colon matches.simps list.case) simp
  qed
  have key: "matches [Plus (\<lambda>c. c \<noteq> dquote), Lit dquote, Star isspace, Lit colon] k =
      (takeWhile (\<lambda>c. c \<noteq> dquote) k \<noteq> [] \<and>
       (case dropWhile (\<lambda>c. c \<noteq> dquote) k of
          [] \<Rightarrow> False
        | q' # after_key \<Rightarrow>
            (case dropWhile isspace after_key of [] \<Rightarrow> False | c' # rest \<Rightarrow> c' = colon)))" for k
  proof (cases "dropWhile (\<lambda>c. c \<noteq> dquote) k")
    case Nil
    then show ?thesis by (simp only: plus_quote matches.simps list.case)
  next
    case (Cons q' after_key)
    then have "q' = dquote" by (rule dropWhile_neq_head)
    with Cons show ?thesis
      by (simp only: plus_quote matches.simps list.case tail) simp
  qed
  have quote: "matches [Star isspace, Lit dquote, Plus (\<lambda>c. c \<noteq> dquote), Lit dquote,
        Star isspace, Lit colon] r =
      (case dropWhile isspace r of
         [] \<Rightarrow> False
       | q # after_quote \<Rightarrow>
           q = dquote \<and> takeWhile (\<lambda>c. c \<noteq> dquote) after_quote \<noteq> [] \<and>
           (case dropWhile (\<lambda>c. c \<noteq> dquote) after_quote of
              [] \<Rightarrow> False
            | q' # after_key \<Rightarrow>
                (case dropWhile isspace after_key of [] \<Rightarrow> False | c' # rest \<Rightarrow> c' = colon)))" for r
  proof (cases "dropWhile isspace r")
    case Nil
    then show ?thesis by (simp only: star_quote matches.simps list.case)
  next
    case (Cons q after_quote)
    then show ?thesis
      by (simp only: star_quote matches.simps list.case key)
  qed
  show ?thesis
  proof (cases s)
    case Nil
    then show ?thesis by (simp add: OBJECT_RE_def object_start_def)
  next
    case (Cons c after_brace)
    then show ?thesis
      by (simp only: OBJECT_RE_def object_start_def matches.simps list.case quote)
  qed
qed


lemma matches_ticks:
  "matches (Star isspace # map Lit (lit ''```'')) v = (\<exists>n. occurs_at (lit ''```'') v n \<and> n = length (takeWhile isspace v))"
proof -
  have nsp: "\<not> isspace backtick" by (simp add: isspace_def backtick_def)
  have l: "map Lit (lit ''```'') = Lit backtick # map Lit [backtick, backtick]"
    by (simp add: lit_def backtick_def)
  have "matches (Star isspace # map Lit (lit ''```'')) v =
        matches (map Lit (lit ''```'') @ []) (dropWhile isspace v)"
    unfolding l using matches_Star_Lit[where P = isspace and c = backtick, OF nsp] by simp
  also have "\<dots> = (length (lit ''```'') \<le> length (dropWhile isspace v) \<and>
        take (length (lit ''```'')) (dropWhile isspace v) = lit ''```'')"
    by (simp only: matches_lits matches.simps simp_thms)
  also have "\<dots> = occurs_at (lit ''```'') v (length (takeWhile isspace v))"
  proof -
    have d: "dropWhile isspace v = drop (length (takeWhile isspace v)) v"
      by (rule dropWhile_eq_drop)
    have "length (takeWhile isspace v) \<le> length v" by (rule length_takeWhile_le)
    then show ?thesis unfolding occurs_at_def d by auto
  qed
  finally show ?thesis by simp
qed

lemma fence_tail_iff:
  "matches ([Star isspace, GroupOpen, LazyStar (\<lambda>c. True), GroupClose, Star isspace] @
      map Lit (lit ''```'')) t = (\<exists>j. occurs_at (lit ''```'') t j)"
proof
  assume "matches ([Star isspace, GroupOpen, LazyStar (\<lambda>c. True), GroupClose, Star isspace] @
      map Lit (lit ''```'')) t"
  then have "matches (Star isspace # GroupOpen # LazyStar (\<lambda>c. True) # GroupClose #
      Star isspace # map Lit (lit ''```'')) t" by simp
  from matches_Star_some[OF this] obtain k1 where k1: "k1 \<le> length t"
    "matches (LazyStar (\<lambda>c. True) # GroupClose # Star isspace # map Lit (lit ''```''))
       (drop k1 t)" by auto
  from k1(2) obtain k2 where k2: "k2 \<le> length (drop k1 t)"
    "matches (Star isspace # map Lit (lit ''```'')) (drop k2 (drop k1 t))"
    unfolding matches_LazyStar_any by auto
  from k2(2) obtain n where n: "occurs_at (lit ''```'') (drop k2 (drop k1 t)) n"
    unfolding matches_ticks by blast
  have "occurs_at (lit ''```'') t (n + k2 + k1)"
    using n k1(1) k2(1) by (auto simp: occurs_at_def add.assoc)
  then show "\<exists>j. occurs_at (lit ''```'') t j" by blast
next
  assume "\<exists>j. occurs_at (lit ''```'') t j"
  then obtain j where j: "occurs_at (lit ''```'') t j" by blast
  have len3: "length (lit ''```'') = 3" by (simp add: lit_def)
  from j have jl: "j \<le> length t" and tk: "take 3 (drop j t) = lit ''```''"
    unfolding occurs_at_def len3 by simp_all
  from tk obtain rest where r: "drop j t = backtick # rest"
    by (cases "drop j t") (auto simp: lit_def backtick_def)
  have "takeWhile isspace (drop j t) = []"
    unfolding r by (simp add: isspace_def backtick_def)
  moreover have "occurs_at (lit ''```'') (drop j t) 0"
    using j by (auto simp: occurs_at_def)
  ultimately have "matches (Star isspace # map Lit (lit ''```'')) (drop j t)"
    unfolding matches_ticks by simp
  with jl have "matches (LazyStar (\<lambda>c. True) # GroupClose # Star isspace # map Lit (lit ''```'')) t"
    unfolding matches_LazyStar_any by auto
  then have "matches (GroupOpen # LazyStar (\<lambda>c. True) # GroupClose # Star isspace #
      map Lit (lit ''```'')) t" by simp
  from matches_Star_zero[OF this]
  show "matches ([Star isspace, GroupOpen, LazyStar (\<lambda>c. True), GroupClose, Star isspace] @
      map Lit (lit ''```'')) t" by simp
qed

lemma fence_re_iff:
  "matches FENCE_RE s =
     (occurs_at (lit ''```json'') s 0 \<and> (\<exists>j \<ge> 7. occurs_at (lit ''```'') s j))"
proof -
  have len: "length (lit ''```json'') = 7" by (simp add: lit_def)
  have "matches FENCE_RE s =
      (7 \<le> length s \<and> take 7 s = lit ''```json'' \<and> (\<exists>j. occurs_at (lit ''```'') (drop 7 s) j))"
    unfolding FENCE_RE_def matches_lits fence_tail_iff len ..
  also have "\<dots> = (occurs_at (lit ''```json'') s 0 \<and> (\<exists>j \<ge> 7. occurs_at (lit ''```'') s j))"
  proof -
    have "(\<exists>j. occurs_at (lit ''```'') (drop 7 s) j) = (\<exists>j \<ge> 7. occurs_at (lit ''```'') s j)"
      if "7 \<le> length s"
    proof
      assume "\<exists>j. occurs_at (lit ''```'') (drop 7 s) j"
      then obtain j where "occurs_at (lit ''```'') (drop 7 s) j" by blast
      then have "occurs_at (lit ''```'') s (j + 7)"
        using that by (auto simp: occurs_at_def)
      then show "\<exists>j \<ge> 7. occurs_at (lit ''```'') s j" by (intro exI[of _ "j + 7"]) simp
    next
      assume "\<exists>j \<ge> 7. occurs_at (lit ''```'') s j"
      then obtain j where j: "7 \<le> j" "occurs_at (lit ''```'') s j" by blast
      then have "occurs_at (lit ''```'') (drop 7 s) (j - 7)"
        by (auto simp: occurs_at_def)
      then show "\<exists>j. occurs_at (lit ''```'') (drop 7 s) j" by blast
    qed
    then show ?thesis by (auto simp: occurs_at_def len)
  qed
  finally show ?thesis .
qed

lemma occurs_at_drop: "i \<le> length s \<Longrightarrow> occurs_at p (drop i s) j = occurs_at p s (i + j)"
  by (auto simp: occurs_at_def add.commute)

lemma search_fence_iff: "(re_search FENCE_RE s \<noteq> None) = has_json_fence s"
proof -
  have "(re_search FENCE_RE s \<noteq> None) = (\<exists>i \<le> length s. matches FENCE_RE (drop i s))"
    unfolding re_search_def by (rule re_search_from_iff)
  also have "\<dots> = has_json_fence s"
  proof
    assume "\<exists>i \<le> length s. matches FENCE_RE (drop i s)"
    then obtain i j where i: "i \<le> length s" and a: "occurs_at (lit ''```json'') (drop i s) 0"
      and j: "7 \<le> j" "occurs_at (lit ''```'') (drop i s) j"
      unfolding fence_re_iff by blast
    from a j i have "occurs_at (lit ''```json'') s i" "occurs_at (lit ''```'') s (i + j)"
      by (simp_all add: occurs_at_drop)
    moreover have "i + j \<le> length s" using \<open>occurs_at (lit ''```'') s (i + j)\<close>
      by (simp add: occurs_at_def)
    ultimately show "has_json_fence s"
      unfolding has_json_fence_def using i j(1)
      by (intro bexI[of _ i] bexI[of _ "i + j"]) auto
  next
    assume "has_json_fence s"
    then obtain i j where ij: "i \<in> {0..length s}" "j \<in> {i + 7..length s}"
      and a: "occurs_at (lit ''```json'') s i" and b: "occurs_at (lit ''```'') s j"
      unfolding has_json_fence_def by blast
    from ij have i: "i \<le> length s" and j: "i + 7 \<le> j" by simp_all
    have "occurs_at (lit ''```json'') (drop i s) 0" using a i by (simp add: occurs_at_drop)
    moreover have "occurs_at (lit ''```'') (drop i s) (j - i)" using b i j
      by (simp add: occurs_at_drop)
    moreover have "7 \<le> j - i" using j by simp
    ultimately have "matches FENCE_RE (drop i s)" unfolding fence_re_iff by blast
    with i show "\<exists>i \<le> length s. matches FENCE_RE (drop i s)" by blast
  qed
  finally show ?thesis .
qed

lemma search_object_iff: "(re_search OBJECT_RE s \<noteq> None) = has_object_start s"
  unfolding re_search_def re_search_from_iff object_re_iff has_object_start_def by auto

lemma search_first:
  assumes "re_search pat text = Some (start_pos, m)"
  shows "start_pos \<le> length text \<and> matches pat (drop start_pos text) \<and>
         (\<forall>i < start_pos. \<not> matches pat (drop i text))"
proof -
  from re_search_from_Some[OF assms[unfolded re_search_def]]
  have a: "start_pos \<le> length text"
    and b: "bt pat (drop start_pos text) start_pos (start_pos, start_pos) = Some m"
    and c: "\<forall>i < start_pos. bt pat (drop i text) i (i, i) = None"
    by auto
  from b have "matches pat (drop start_pos text)"
    using bt_matches[of pat "drop start_pos text" start_pos "(start_pos, start_pos)"] by simp
  moreover have "\<forall>i < start_pos. \<not> matches pat (drop i text)"
  proof (intro allI impI)
    fix i assume "i < start_pos"
    with c have "bt pat (drop i text) i (i, i) = None" by blast
    then show "\<not> matches pat (drop i text)"
      using bt_matches[of pat "drop i text" i "(i, i)"] by simp
  qed
  ultimately show ?thesis using a by blast
qed

lemma search_fence_None: "(re_search FENCE_RE s = None) = (\<not> has_json_fence s)"
  using search_fence_iff[of s] by blast

lemma search_object_None: "(re_search OBJECT_RE s = None) = (\<not> has_object_start s)"
  using search_object_iff[of s] by blast

lemma scan_from_open_brace:
  assumes "drop start_pos text = lbrace # rest"
  shows "depth_after (slice text start_pos (Suc start_pos + j)) =
           fst (scan_from (1, False, False) (take j rest))"
  by (simp add: depth_after_def slice_def assms scan_from_def chars)

lemma bt_Star_Lit:
  "\<not> P c \<Longrightarrow> bt (Star P # Lit c # r) s pos g =
     bt (Lit c # r) (dropWhile P s) (pos + length (takeWhile P s)) g"
proof (induction s arbitrary: pos)
  case Nil
  show ?case by simp
next
  case (Cons x xs)
  show ?case
  proof (cases "P x")
    case True
    then have "x \<noteq> c" using Cons.prems by auto
    then show ?thesis using True Cons.IH[OF Cons.prems, of "Suc pos"]
      by (simp split: option.splits)
  next
    case False
    then show ?thesis by simp
  qed
qed

lemma bt_lits:
  "bt (map Lit p @ r) s pos g =
     (if length p \<le> length s \<and> take (length p) s = p
      then bt r (drop (length p) s) (pos + length p) g else None)"
proof (induction p arbitrary: s pos)
  case Nil
  show ?case by simp
next
  case (Cons c p)
  show ?case by (cases s) (auto simp: Cons.IH)
qed

lemma bt_LazyStar_any:
  "bt (LazyStar (\<lambda>c. True) # r) s pos g = Some m \<Longrightarrow>
     \<exists>k \<le> length s. bt r (drop k s) (pos + k) g = Some m \<and>
        (\<forall>j < k. bt r (drop j s) (pos + j) g = None)"
proof (induction s arbitrary: pos)
  case Nil
  then show ?case by (intro exI[of _ 0]) simp
next
  case (Cons x xs)
  show ?case
  proof (cases "bt r (x # xs) pos g")
    case (Some m')
    with Cons.prems have "m' = m" by simp
    with Some show ?thesis by (intro exI[of _ 0]) simp
  next
    case None
    with Cons.prems have "bt (LazyStar (\<lambda>c. True) # r) xs (Suc pos) g = Some m" by simp
    from Cons.IH[OF this] obtain k where k: "k \<le> length xs"
      "bt r (drop k xs) (Suc pos + k) g = Some m"
      "\<forall>j < k. bt r (drop j xs) (Suc pos + j) g = None" by blast
    have "\<forall>j < Suc k. bt r (drop j (x # xs)) (pos + j) g = None"
    proof (intro allI impI)
      fix j assume "j < Suc k"
      show "bt r (drop j (x # xs)) (pos + j) g = None"
      proof (cases j)
        case 0
        then show ?thesis using None by simp
      next
        case (Suc i)
        with \<open>j < Suc k\<close> k(3) show ?thesis by simp
      qed
    qed
    with k(1,2) show ?thesis by (intro exI[of _ "Suc k"]) simp
  qed
qed

lemma bt_Star_greedy:
  "bt (Star P # r) s pos g = Some m \<Longrightarrow>
     \<exists>k \<le> length (takeWhile P s). bt r (drop k s) (pos + k) g = Some m \<and>
        (\<forall>j. k < j \<and> j \<le> length (takeWhile P s) \<longrightarrow> bt r (drop j s) (pos + j) g = None)"
proof (induction s arbitrary: pos)
  case Nil
  then show ?case by (intro exI[of _ 0]) auto
next
  case (Cons x xs)
  show ?case
  proof (cases "P x")
    case False
    with Cons.prems show ?thesis by (intro exI[of _ 0]) auto
  next
    case True
    show ?thesis
    proof (cases "bt (Star P # r) xs (Suc pos) g")
      case (Some m')
      with Cons.prems True have "m' = m" by simp
      with Cons.IH[of "Suc pos"] Some obtain k where k: "k \<le> length (takeWhile P xs)"
        "bt r (drop k xs) (Suc pos + k) g = Some m"
        "\<forall>j. k < j \<and> j \<le> length (takeWhile P xs) \<longrightarrow> bt r (drop j xs) (Suc pos + j) g = None"
        by blast
      have "\<forall>j. Suc k < j \<and> j \<le> length (takeWhile P (x # xs)) \<longrightarrow>
              bt r (drop j (x # xs)) (pos + j) g = None"
      proof (intro allI impI)
        fix j assume j: "Suc k < j \<and> j \<le> length (takeWhile P (x # xs))"
        then obtain i where i: "j = Suc i" by (cases j) auto
        with j True have "k < i \<and> i \<le> length (takeWhile P xs)" by simp
        with k(3) i show "bt r (drop j (x # xs)) (pos + j) g = None" by simp
      qed
      with k(1,2) True show ?thesis by (intro exI[of _ "Suc k"]) simp
    next
      case None
      with Cons.prems True have here: "bt r (x # xs) pos g = Some m" by simp
      have star_none: "\<And>q. bt (Star P # r) xs q g = None \<Longrightarrow>
          (\<forall>j \<le> length (takeWhile P xs). bt r (drop j xs) (q + j) g = None)"
      proof -
        fix q assume "bt (Star P # r) xs q g = None"
        then show "\<forall>j \<le> length (takeWhile P xs). bt r (drop j xs) (q + j) g = None"
        proof (induction xs arbitrary: q)
          case Nil
          then show ?case by simp
        next
          case (Cons y ys)
          show ?case
          proof (cases "P y")
            case False
            with Cons.prems show ?thesis by simp
          next
            case True
            with Cons.prems have a: "bt (Star P # r) ys (Suc q) g = None"
              and b: "bt r (y # ys) q g = None"
              by (auto split: option.splits)
            show ?thesis
            proof (intro allI impI)
              fix j assume j: "j \<le> length (takeWhile P (y # ys))"
              show "bt r (drop j (y # ys)) (q + j) g = None"
              proof (cases j)
                case 0
                then show ?thesis using b by simp
              next
                case (Suc i)
                with j True have "i \<le> length (takeWhile P ys)" by simp
                with Cons.IH[OF a] Suc show ?thesis by simp
              qed
            qed
          qed
        qed
      qed
      have "\<forall>j. 0 < j \<and> j \<le> length (takeWhile P (x # xs)) \<longrightarrow>
              bt r (drop j (x # xs)) (pos + j) g = None"
      proof (intro allI impI)
        fix j assume j: "0 < j \<and> j \<le> length (takeWhile P (x # xs))"
        then obtain i where i: "j = Suc i" by (cases j) auto
        with j True have "i \<le> length (takeWhile P xs)" by simp
        with star_none[OF None] i show "bt r (drop j (x # xs)) (pos + j) g = None" by simp
      qed
      with here show ?thesis by (intro exI[of _ 0]) simp
    qed
  qed
qed


lemma fence_close_drop: "k \<le> length s \<Longrightarrow> fence_close (drop k s) j = fence_close s (k + j)"
  by (simp add: fence_close_def occurs_at_drop ac_simps)

lemma bt_close:
  "bt (GroupClose # Star isspace # map Lit (lit ''```'')) w p g =
     (if fence_close w 0 then Some (p + length (takeWhile isspace w) + 3, fst g, p) else None)"
proof -
  have nsp: "\<not> isspace backtick" by (simp add: isspace_def backtick_def)
  have l: "map Lit (lit ''```'') = Lit backtick # map Lit [backtick, backtick]"
    by (simp add: lit_def backtick_def)
  have len3: "length (lit ''```'') = 3" by (simp add: lit_def)
  have "bt (GroupClose # Star isspace # map Lit (lit ''```'')) w p g =
        bt (map Lit (lit ''```'') @ []) (dropWhile isspace w)
          (p + length (takeWhile isspace w)) (fst g, p)"
    unfolding l using bt_Star_Lit[where P = isspace and c = backtick, OF nsp] by simp
  also have "\<dots> = (if 3 \<le> length (dropWhile isspace w) \<and>
        take 3 (dropWhile isspace w) = lit ''```''
      then Some (p + length (takeWhile isspace w) + 3, fst g, p) else None)"
    unfolding bt_lits len3 by simp
  also have "(3 \<le> length (dropWhile isspace w) \<and> take 3 (dropWhile isspace w) = lit ''```'')
      = fence_close w 0"
  proof -
    have d: "dropWhile isspace w = drop (length (takeWhile isspace w)) w"
      by (rule dropWhile_eq_drop)
    have "length (takeWhile isspace w) \<le> length w" by (rule length_takeWhile_le)
    then show ?thesis unfolding fence_close_def occurs_at_def d len3 by auto
  qed
  finally show ?thesis .
qed

lemma fence_body_iff:
  "matches (GroupOpen # LazyStar (\<lambda>c. True) # GroupClose # Star isspace #
      map Lit (lit ''```'')) u = (\<exists>j. occurs_at (lit ''```'') u j)"
proof
  assume "matches (GroupOpen # LazyStar (\<lambda>c. True) # GroupClose # Star isspace #
      map Lit (lit ''```'')) u"
  then have "matches ([Star isspace, GroupOpen, LazyStar (\<lambda>c. True), GroupClose, Star isspace] @
      map Lit (lit ''```'')) u"
    using matches_Star_zero by simp
  then show "\<exists>j. occurs_at (lit ''```'') u j" by (simp only: fence_tail_iff)
next
  assume "\<exists>j. occurs_at (lit ''```'') u j"
  then obtain j where j: "occurs_at (lit ''```'') u j" by blast
  have len3: "length (lit ''```'') = 3" by (simp add: lit_def)
  from j have jl: "j \<le> length u" and tk: "take 3 (drop j u) = lit ''```''"
    unfolding occurs_at_def len3 by simp_all
  from tk obtain rest where r: "drop j u = backtick # rest"
    by (cases "drop j u") (auto simp: lit_def backtick_def)
  have "takeWhile isspace (drop j u) = []"
    unfolding r by (simp add: isspace_def backtick_def)
  moreover have "occurs_at (lit ''```'') (drop j u) 0"
    using j by (auto simp: occurs_at_def)
  ultimately have "matches (Star isspace # map Lit (lit ''```'')) (drop j u)"
    unfolding matches_ticks by simp
  with jl have "matches (LazyStar (\<lambda>c. True) # GroupClose # Star isspace # map Lit (lit ''```'')) u"
    unfolding matches_LazyStar_any by auto
  then show "matches (GroupOpen # LazyStar (\<lambda>c. True) # GroupClose # Star isspace #
      map Lit (lit ''```'')) u" by simp
qed

lemma ticks_after_spaces:
  assumes "occurs_at (lit ''```'') (drop k t) j" and "k \<le> length (takeWhile isspace t)"
  shows "\<exists>j'. occurs_at (lit ''```'') (drop (length (takeWhile isspace t)) t) j'"
proof -
  let ?n = "length (takeWhile isspace t)"
  have len3: "length (lit ''```'') = 3" by (simp add: lit_def)
  have nl: "?n \<le> length t" by (rule length_takeWhile_le)
  from assms(1) have b: "k + j + 3 \<le> length t" and tk: "take 3 (drop (k + j) t) = lit ''```''"
    unfolding occurs_at_def len3 by (auto simp: add.commute)
  have "t ! (k + j) = backtick"
  proof -
    from tk b have "(take 3 (drop (k + j) t)) ! 0 = backtick" by (simp add: lit_def backtick_def)
    then show ?thesis using b by simp
  qed
  have "?n \<le> k + j"
  proof (rule ccontr)
    assume "\<not> ?n \<le> k + j"
    then have lt: "k + j < ?n" by simp
    then have "takeWhile isspace t ! (k + j) = t ! (k + j)" by (rule takeWhile_nth)
    moreover have "takeWhile isspace t ! (k + j) \<in> set (takeWhile isspace t)"
      using lt by simp
    ultimately have "isspace (t ! (k + j))" using set_takeWhileD by metis
    with \<open>t ! (k + j) = backtick\<close> show False by (simp add: isspace_def backtick_def)
  qed
  then have "occurs_at (lit ''```'') (drop ?n t) (k + j - ?n)"
    using b tk nl unfolding occurs_at_def len3 by simp
  then show ?thesis by blast
qed

lemma fence_match_group:
  assumes "bt FENCE_RE u pos g = Some (e, gs, ge)"
  shows "occurs_at (lit ''```json'') u 0 \<and>
         gs = pos + 7 + length (takeWhile isspace (drop 7 u)) \<and> gs \<le> ge \<and>
         fence_close u (ge - pos) \<and>
         (\<forall>k. gs \<le> k \<and> k < ge \<longrightarrow> \<not> fence_close u (k - pos)) \<and>
         e = ge + length (takeWhile isspace (drop (ge - pos) u)) + 3"
proof -
  let ?t = "drop 7 u"
  let ?n = "length (takeWhile isspace ?t)"
  let ?R1 = "GroupOpen # LazyStar (\<lambda>c. True) # GroupClose # Star isspace # map Lit (lit ''```'')"
  let ?R2 = "GroupClose # Star isspace # map Lit (lit ''```'')"
  have len7: "length (lit ''```json'') = 7" by (simp add: lit_def)
  from assms have head: "7 \<le> length u \<and> take 7 u = lit ''```json''"
    and tail: "bt (Star isspace # ?R1) ?t (pos + 7) g = Some (e, gs, ge)"
    unfolding FENCE_RE_def bt_lits len7 by (auto split: if_splits)
  from bt_Star_greedy[OF tail] obtain k1 where k1: "k1 \<le> ?n"
    "bt ?R1 (drop k1 ?t) (pos + 7 + k1) g = Some (e, gs, ge)"
    "\<forall>j. k1 < j \<and> j \<le> ?n \<longrightarrow> bt ?R1 (drop j ?t) (pos + 7 + j) g = None"
    by blast
  have "k1 = ?n"
  proof (rule ccontr)
    assume "k1 \<noteq> ?n"
    with k1(1,3) have "bt ?R1 (drop ?n ?t) (pos + 7 + ?n) g = None" by simp
    then have no: "\<not> matches ?R1 (drop ?n ?t)"
      using bt_matches[of ?R1 "drop ?n ?t" "pos + 7 + ?n" g] by simp
    from k1(2) have "matches ?R1 (drop k1 ?t)"
      using bt_matches[of ?R1 "drop k1 ?t" "pos + 7 + k1" g] by simp
    then obtain j where "occurs_at (lit ''```'') (drop k1 ?t) j"
      unfolding fence_body_iff by blast
    from ticks_after_spaces[OF this k1(1)] have "matches ?R1 (drop ?n ?t)"
      unfolding fence_body_iff .
    with no show False by blast
  qed
  let ?v = "drop ?n ?t"
  let ?q = "pos + 7 + ?n"
  from k1(2) \<open>k1 = ?n\<close> have "bt (LazyStar (\<lambda>c. True) # ?R2) ?v ?q (?q, snd g) = Some (e, gs, ge)"
    by simp
  from bt_LazyStar_any[OF this] obtain k2 where k2: "k2 \<le> length ?v"
    "bt ?R2 (drop k2 ?v) (?q + k2) (?q, snd g) = Some (e, gs, ge)"
    "\<forall>j < k2. bt ?R2 (drop j ?v) (?q + j) (?q, snd g) = None"
    by blast
  have nl: "7 + ?n \<le> length u"
    using head length_takeWhile_le[of isspace ?t] by (simp del: length_takeWhile_le) linarith
  have v: "?v = drop (7 + ?n) u" by (simp add: add.commute)
  from k2(2) have cl: "fence_close (drop k2 ?v) 0"
    and res: "e = ?q + k2 + length (takeWhile isspace (drop k2 ?v)) + 3" "gs = ?q" "ge = ?q + k2"
    unfolding bt_close by (auto split: if_splits)
  have dr: "drop k2 ?v = drop (ge - pos) u"
    using res(3) by (simp add: add.commute add.left_commute)
  have gel: "ge - pos \<le> length u"
    using res(3) k2(1) nl by simp
  have c1: "fence_close u (ge - pos)"
    using cl fence_close_drop[OF gel, of 0] unfolding dr by simp
  have c2: "\<forall>k. gs \<le> k \<and> k < ge \<longrightarrow> \<not> fence_close u (k - pos)"
  proof (intro allI impI)
    fix k assume k: "gs \<le> k \<and> k < ge"
    then obtain j where j: "k = ?q + j" "j < k2"
      using res(2,3) by (metis le_Suc_ex nat_add_left_cancel_less)
    with k2(3) have "bt ?R2 (drop j ?v) (?q + j) (?q, snd g) = None" by blast
    then have "\<not> fence_close (drop j ?v) 0"
      unfolding bt_close by (auto split: if_splits)
    moreover have "drop j ?v = drop (k - pos) u"
      using j(1) by (simp add: add.commute add.left_commute)
    moreover have "k - pos \<le> length u"
      using j k2(1) nl by simp
    ultimately show "\<not> fence_close u (k - pos)"
      using fence_close_drop[of "k - pos" u 0] by simp
  qed
  have "occurs_at (lit ''```json'') u 0"
    using head by (simp add: occurs_at_def len7)
  moreover have "e = ge + length (takeWhile isspace (drop (ge - pos) u)) + 3"
    using res(1,3) dr by simp
  ultimately show ?thesis using res(2,3) c1 c2 by simp
qed

lemma search_fence_group:
  assumes "re_search FENCE_RE text = Some (s, e, gs, ge)"
  shows "occurs_at (lit ''```json'') text s \<and>
         gs = s + 7 + length (takeWhile isspace (drop (s + 7) text)) \<and> gs \<le> ge \<and>
         fence_close text ge \<and> (\<forall>k. gs \<le> k \<and> k < ge \<longrightarrow> \<not> fence_close text k)"
proof -
  from re_search_from_Some[OF assms[unfolded re_search_def]]
  have le: "s \<le> length text" and m: "bt FENCE_RE (drop s text) s (s, s) = Some (e, gs, ge)"
    by auto
  from fence_match_group[OF m] have a: "occurs_at (lit ''```json'') (drop s text) 0"
    and b: "gs = s + 7 + length (takeWhile isspace (drop 7 (drop s text)))" and c: "gs \<le> ge"
    and d: "fence_close (drop s text) (ge - s)"
    and f: "\<forall>k. gs \<le> k \<and> k < ge \<longrightarrow> \<not> fence_close (drop s text) (k - s)"
    by auto
  have sg: "s \<le> gs" using b by simp
  have "occurs_at (lit ''```json'') text s" using a le by (simp add: occurs_at_drop)
  moreover have "gs = s + 7 + length (takeWhile isspace (drop (s + 7) text))"
    using b by (simp add: add.commute)
  moreover have "fence_close text ge"
    using d fence_close_drop[OF le, of "ge - s"] sg c by simp
  moreover have "\<forall>k. gs \<le> k \<and> k < ge \<longrightarrow> \<not> fence_close text k"
  proof (intro allI impI)
    fix k assume k: "gs \<le> k \<and> k < ge"
    with f have "\<not> fence_close (drop s text) (k - s)" by blast
    then show "\<not> fence_close text k"
      using fence_close_drop[OF le, of "k - s"] sg k by simp
  qed
  ultimately show ?thesis using c by blast
qed

section \<open>Properties of the parser\<close>

text \<open>
  Claim C1. In a reply with no fenced block in which the object pattern matches somewhere,
  the scan starts at the first position where it matches (a brace, optional whitespace, a
  quoted non-empty key, optional whitespace, a colon). If the scan stops, at \<open>end_pos\<close>,
  that is the first position after the start at which the brace depth is back to zero, and
  the parser returns what the decoder makes of \<open>text[start_pos:end_pos]\<close>; if the scan runs
  to the end of the text, the depth never came back to zero and the parser fails. Inside a
  string literal the scan skips every character but the quote and the backslash, braces
  included, and it skips the character after a backslash whatever it is. The witness is
  the reply of the specification, decoded to \<open>overall_score = 82\<close> and a \<open>notes\<close> string
  that contains \<open>{braces}\<close>.
\<close>

theorem parse_unfenced_object:
  assumes "\<not> has_json_fence text" and "has_object_start text"
  shows "\<exists>start_pos.
           start_pos < length text \<and> object_start (drop start_pos text) \<and>
           (\<forall>i < start_pos. \<not> object_start (drop i text)) \<and>
           (case brace_scan (drop start_pos text) start_pos 0 False False of
              None \<Rightarrow>
                parse_json_from_response decoder text =
                  Inl (ValueError ''Failed to parse analysis results'') \<and>
                (\<forall>k. start_pos < k \<and> k \<le> length text \<longrightarrow>
                   1 \<le> depth_after (slice text start_pos k))
            | Some end_pos \<Rightarrow>
                start_pos < end_pos \<and> end_pos \<le> length text \<and>
                depth_after (slice text start_pos end_pos) = 0 \<and>
                (\<forall>k. start_pos < k \<and> k < end_pos \<longrightarrow>
                   1 \<le> depth_after (slice text start_pos k)) \<and>
                parse_json_from_response decoder text =
                  (case decoder (slice text start_pos end_pos) of
                     Inl e \<Rightarrow> Inl (ValueError ''Failed to parse analysis results'')
                   | Inr data \<Rightarrow> Inr data)) \<and>
           (\<forall>body rest i d. dquote \<notin> set body \<and> backslash \<notin> set body \<longrightarrow>
              brace_scan (body @ rest) i d True False =
                brace_scan rest (i + length body) d True False) \<and>
           (\<forall>c rest i d ins.
              brace_scan (backslash # c # rest) i d ins False =
                brace_scan rest (i + 2) d ins False)"
proof -
  from assms(1) have nofence: "re_search FENCE_RE text = None"
    by (simp add: search_fence_None)
  from assms(2) have "re_search OBJECT_RE text \<noteq> None"
    by (simp add: search_object_None)
  then obtain start_pos m where obj: "re_search OBJECT_RE text = Some (start_pos, m)"
    by (cases "re_search OBJECT_RE text") auto
  from search_first[OF obj] have le: "start_pos \<le> length text"
    and here: "object_start (drop start_pos text)"
    and first: "\<forall>i < start_pos. \<not> object_start (drop i text)"
    unfolding object_re_iff by auto
  from here obtain rest where s: "drop start_pos text = lbrace # rest"
    by (cases "drop start_pos text") (auto simp: object_start_def)
  then have lt: "start_pos < length text"
    using le by (cases "start_pos = length text") auto
  have len: "length text = start_pos + Suc (length rest)"
    using s le by (metis add_diff_cancel_left' le_add_diff_inverse length_Cons length_drop)
  note dep = scan_from_open_brace[OF s]
  have step: "brace_scan (drop start_pos text) start_pos 0 False False =
              brace_scan rest (Suc start_pos) 1 False False"
    by (simp add: s chars)
  have scan: "case brace_scan (drop start_pos text) start_pos 0 False False of
              None \<Rightarrow>
                parse_json_from_response decoder text =
                  Inl (ValueError ''Failed to parse analysis results'') \<and>
                (\<forall>k. start_pos < k \<and> k \<le> length text \<longrightarrow>
                   1 \<le> depth_after (slice text start_pos k))
            | Some end_pos \<Rightarrow>
                start_pos < end_pos \<and> end_pos \<le> length text \<and>
                depth_after (slice text start_pos end_pos) = 0 \<and>
                (\<forall>k. start_pos < k \<and> k < end_pos \<longrightarrow>
                   1 \<le> depth_after (slice text start_pos k)) \<and>
                parse_json_from_response decoder text =
                  (case decoder (slice text start_pos end_pos) of
                     Inl e \<Rightarrow> Inl (ValueError ''Failed to parse analysis results'')
                   | Inr data \<Rightarrow> Inr data)"
  proof (cases "brace_scan rest (Suc start_pos) 1 False False")
    case None
    have p: "parse_json_from_response decoder text =
               Inl (ValueError ''Failed to parse analysis results'')"
      using nofence obj step None by (simp add: parse_json_from_response_def find_json_str_def)
    have "\<forall>k. start_pos < k \<and> k \<le> length text \<longrightarrow> 1 \<le> depth_after (slice text start_pos k)"
    proof (intro allI impI)
      fix k assume k: "start_pos < k \<and> k \<le> length text"
      then obtain j where j: "k = Suc start_pos + j" "j \<le> length rest"
        using len by (metis Suc_leI add_Suc_right add_Suc le_Suc_ex nat_add_left_cancel_le)
      from brace_scan_None[OF _ None j(2)] dep[of j] j(1)
      show "1 \<le> depth_after (slice text start_pos k)" by simp
    qed
    with p show ?thesis unfolding step None by simp
  next
    case (Some end_pos)
    from brace_scan_sound[OF _ Some] obtain n where n: "end_pos = Suc start_pos + n" "0 < n"
      "n \<le> length rest" "fst (scan_from (1, False, False) (take n rest)) = 0"
      "\<forall>k < n. 1 \<le> fst (scan_from (1, False, False) (take k rest))"
      by auto
    have bounds: "start_pos < end_pos \<and> end_pos \<le> length text"
      using n(1,3) len by simp
    have zero: "depth_after (slice text start_pos end_pos) = 0"
      using dep[of n] n(1,4) by simp
    have pos: "\<forall>k. start_pos < k \<and> k < end_pos \<longrightarrow> 1 \<le> depth_after (slice text start_pos k)"
    proof (intro allI impI)
      fix k assume k: "start_pos < k \<and> k < end_pos"
      then obtain j where j: "k = Suc start_pos + j" "j < n"
        using n(1) by (metis add_Suc less_iff_Suc_add nat_add_left_cancel_less)
      with n(5) dep[of j] show "1 \<le> depth_after (slice text start_pos k)" by simp
    qed
    have res: "find_json_str text = Inr (slice text start_pos end_pos)"
      using nofence obj step Some bounds by (simp add: find_json_str_def)
    have "parse_json_from_response decoder text =
           (case decoder (slice text start_pos end_pos) of
              Inl e \<Rightarrow> Inl (ValueError ''Failed to parse analysis results'')
            | Inr data \<Rightarrow> Inr data)"
      by (simp add: parse_json_from_response_def res)
    with bounds zero pos show ?thesis unfolding step Some by simp
  qed
  from lt here first scan brace_scan_in_string brace_scan_escaped
  show ?thesis by blast
qed

lemma decode_unfenced_reply:
  "json_decode (slice unfenced_reply 6 60) =
     Inr (JObject [(lit ''overall_score'', JInt 82),
                   (lit ''notes'', JString (lit ''uses {braces} inside''))])"
  by code_simp

theorem parse_unfenced_object_witness:
  "\<not> has_json_fence unfenced_reply \<and> has_object_start unfenced_reply \<and>
   re_search OBJECT_RE unfenced_reply = Some (6, 23, 6, 6) \<and>
   brace_scan (drop 6 unfenced_reply) 6 0 False False = Some 60 \<and>
   slice unfenced_reply 6 60 = lit ''{\"overall_score\": 82, \"notes\": \"uses {braces} inside\"}'' \<and>
   parse_json_from_response json_decode unfenced_reply =
     Inr (JObject [(lit ''overall_score'', JInt 82),
                   (lit ''notes'', JString (lit ''uses {braces} inside''))])"
proof -
  have h1: "re_search FENCE_RE unfenced_reply = None"
    by (simp add: unfenced_reply_def regex_eval)
  have h2: "re_search OBJECT_RE unfenced_reply = Some (6, 23, 6, 6)"
    by (simp add: unfenced_reply_def regex_eval)
  have h3: "brace_scan (drop 6 unfenced_reply) 6 0 False False = Some 60"
    by (simp add: unfenced_reply_def lit_def chars)
  have h4: "slice unfenced_reply 6 60 = lit ''{\"overall_score\": 82, \"notes\": \"uses {braces} inside\"}''"
    by (simp add: unfenced_reply_def lit_def slice_def)
  have a: "\<not> has_json_fence unfenced_reply"
    using h1 by (simp add: search_fence_None)
  have b: "has_object_start unfenced_reply"
    using h2 search_object_None[of unfenced_reply] by simp
  from search_first[OF h2] have at6: "object_start (drop 6 unfenced_reply)"
    and before6: "\<forall>i < 6. \<not> object_start (drop i unfenced_reply)"
    unfolding object_re_iff by auto
  from parse_unfenced_object[OF a b, of json_decode] obtain start_pos where
    s1: "object_start (drop start_pos unfenced_reply)"
    and s2: "\<forall>i < start_pos. \<not> object_start (drop i unfenced_reply)"
    and s3: "case brace_scan (drop start_pos unfenced_reply) start_pos 0 False False of
               None \<Rightarrow>
                 parse_json_from_response json_decode unfenced_reply =
                   Inl (ValueError ''Failed to parse analysis results'') \<and>
                 (\<forall>k. start_pos < k \<and> k \<le> length unfenced_reply \<longrightarrow>
                    1 \<le> depth_after (slice unfenced_reply start_pos k))
             | Some end_pos \<Rightarrow>
                 start_pos < end_pos \<and> end_pos \<le> length unfenced_reply \<and>
                 depth_after (slice unfenced_reply start_pos end_pos) = 0 \<and>
                 (\<forall>k. start_pos < k \<and> k < end_pos \<longrightarrow>
                    1 \<le> depth_after (slice unfenced_reply start_pos k)) \<and>
                 parse_json_from_response json_decode unfenced_reply =
                   (case json_decode (slice unfenced_reply start_pos end_pos) of
                      Inl e \<Rightarrow> Inl (ValueError ''Failed to parse analysis results'')
                    | Inr data \<Rightarrow> Inr data)"
    by blast
  have "start_pos = 6"
  proof (rule ccontr)
    assume "start_pos \<noteq> 6"
    then consider "start_pos < 6" | "6 < start_pos" by linarith
    then show False
    proof cases
      case 1
      with before6 s1 show False by blast
    next
      case 2
      with s2 at6 show False by blast
    qed
  qed
  with s3 have "parse_json_from_response json_decode unfenced_reply =
     Inr (JObject [(lit ''overall_score'', JInt 82),
                   (lit ''notes'', JString (lit ''uses {braces} inside''))])"
    by (simp add: h3 decode_unfenced_reply)
  with a b h2 h3 h4 show ?thesis by blast
qed

text \<open>
  Claim C8. A reply with no fenced block and no place where the object pattern matches
  makes the parser fail with its \<open>ValueError\<close>, whatever the decoder is. The witness is the
  reply \<open>I could not analyze this.\<close> with a decoder that accepts every input.
\<close>

theorem parse_fails_without_json:
  assumes "\<not> has_json_fence text" and "\<not> has_object_start text"
  shows "parse_json_from_response decoder text =
           Inl (ValueError ''Failed to parse analysis results'')"
proof -
  from assms have "re_search FENCE_RE text = None" "re_search OBJECT_RE text = None"
    by (simp_all add: search_fence_None search_object_None)
  then show ?thesis by (simp add: parse_json_from_response_def find_json_str_def)
qed

theorem parse_fails_without_json_witness:
  "\<not> has_json_fence no_json_reply \<and> \<not> has_object_start no_json_reply \<and>
   parse_json_from_response (\<lambda>s. Inr JNull) no_json_reply =
     Inl (ValueError ''Failed to parse analysis results'')"
proof -
  have h1: "re_search FENCE_RE no_json_reply = None"
    by (simp add: no_json_reply_def regex_eval)
  have h2: "re_search OBJECT_RE no_json_reply = None"
    by (simp add: no_json_reply_def regex_eval)
  have a: "\<not> has_json_fence no_json_reply"
    using h1 by (simp add: search_fence_None)
  have b: "\<not> has_object_start no_json_reply"
    using h2 by (simp add: search_object_None)
  from parse_fails_without_json[OF a b] a b show ?thesis by blast
qed

text \<open>
  Claim C10. In a reply with a fenced block the fence pattern matches. The fenced contents
  start after \<open>```json\<close> and the whitespace that follows it, and end at the first position
  from which only whitespace comes before three backticks. The result of the parser is
  decided by the decoder on these contents alone: when the decoder rejects them the parser
  fails, and the brace scan is not tried. In the witness the reply also holds an unfenced
  object that the scan would delimit and the decoder would accept.
\<close>

theorem fenced_decode_failure_no_fallback:
  assumes "has_json_fence text"
  shows "\<exists>s e gs ge.
           re_search FENCE_RE text = Some (s, e, gs, ge) \<and>
           occurs_at (lit ''```json'') text s \<and>
           gs = s + 7 + length (takeWhile isspace (drop (s + 7) text)) \<and> gs \<le> ge \<and>
           fence_close text ge \<and> (\<forall>k. gs \<le> k \<and> k < ge \<longrightarrow> \<not> fence_close text k) \<and>
           parse_json_from_response decoder text =
             (case decoder (slice text gs ge) of
                Inl err \<Rightarrow> Inl (ValueError ''Failed to parse analysis results'')
              | Inr data \<Rightarrow> Inr data)"
proof -
  from assms have "re_search FENCE_RE text \<noteq> None"
    by (simp add: search_fence_None)
  then obtain s e gs ge where m: "re_search FENCE_RE text = Some (s, e, gs, ge)"
    by (cases "re_search FENCE_RE text") auto
  then have "parse_json_from_response decoder text =
             (case decoder (slice text gs ge) of
                Inl err \<Rightarrow> Inl (ValueError ''Failed to parse analysis results'')
              | Inr data \<Rightarrow> Inr data)"
    by (simp add: parse_json_from_response_def find_json_str_def)
  with m search_fence_group[OF m] show ?thesis by blast
qed

lemma decode_bad_fence:
  "json_decode (lit ''{bad'') = Inl (ValueError ''Expecting value'')"
  by code_simp

lemma decode_good_object:
  "json_decode (lit ''{\"a\": 1}'') = Inr (JObject [(lit ''a'', JInt 1)])"
  by code_simp

theorem fenced_decode_failure_no_fallback_witness:
  "has_json_fence bad_fence_reply \<and>
   re_search FENCE_RE bad_fence_reply = Some (0, 16, 8, 12) \<and>
   json_decode (slice bad_fence_reply 8 12) = Inl (ValueError ''Expecting value'') \<and>
   re_search OBJECT_RE bad_fence_reply = Some (21, 26, 21, 21) \<and>
   brace_scan (drop 21 bad_fence_reply) 21 0 False False = Some 29 \<and>
   json_decode (slice bad_fence_reply 21 29) = Inr (JObject [(lit ''a'', JInt 1)]) \<and>
   parse_json_from_response json_decode bad_fence_reply =
     Inl (ValueError ''Failed to parse analysis results'')"
proof -
  have h1: "re_search FENCE_RE bad_fence_reply = Some (0, 16, 8, 12)"
    by (simp add: bad_fence_reply_def regex_eval)
  have s1: "slice bad_fence_reply 8 12 = lit ''{bad''"
    by (simp add: bad_fence_reply_def lit_def slice_def)
  have h2: "json_decode (slice bad_fence_reply 8 12) = Inl (ValueError ''Expecting value'')"
    by (simp only: s1 decode_bad_fence)
  have h3: "re_search OBJECT_RE bad_fence_reply = Some (21, 26, 21, 21)"
    by (simp add: bad_fence_reply_def regex_eval)
  have h4: "brace_scan (drop 21 bad_fence_reply) 21 0 False False = Some 29"
    by (simp add: bad_fence_reply_def lit_def chars)
  have s2: "slice bad_fence_reply 21 29 = lit ''{\"a\": 1}''"
    by (simp add: bad_fence_reply_def lit_def slice_def)
  have h5: "json_decode (slice bad_fence_reply 21 29) = Inr (JObject [(lit ''a'', JInt 1)])"
    by (simp only: s2 decode_good_object)
  have f: "has_json_fence bad_fence_reply"
    using h1 search_fence_None[of bad_fence_reply] by simp
  from fenced_decode_failure_no_fallback[OF f, of json_decode] h1
  have "parse_json_from_response json_decode bad_fence_reply =
          (case json_decode (slice bad_fence_reply 8 12) of
             Inl err \<Rightarrow> Inl (ValueError ''Failed to parse analysis results'')
           | Inr data \<Rightarrow> Inr data)"
    by auto
  then have "parse_json_from_response json_decode bad_fence_reply =
     Inl (ValueError ''Failed to parse analysis results'')"
    by (simp add: h2)
  with f h1 h2 h3 h4 h5 show ?thesis by blast
qed

text \<open>The fenced example of the specification.\<close>

lemma parse_fenced_reply:
  "parse_json_from_response json_decode fenced_reply = Inr (JObject [(lit ''a'', JInt 1)])"
proof -
  have "find_json_str fenced_reply = Inr (lit ''{\"a\": 1}'')"
    by (simp add: fenced_reply_def find_json_str_def regex_eval slice_def)
  then show ?thesis
    by (simp add: parse_json_from_response_def decode_good_object)
qed

section \<open>Properties of the preprocessor\<close>

lemma get_text_pages_error:
  "Inl e \<in> set doc \<Longrightarrow> \<exists>e'. get_text_pages doc acc = Inl e'"
  by (induction doc arbitrary: acc) (auto split: sum.splits)

lemma length_slice_to: "0 \<le> n \<Longrightarrow> length (slice_to xs n) \<le> nat n"
  by (simp add: slice_to_def)

text \<open>
  Claim C9. When opening the document raises, or reading the text of any page raises,
  \<open>extract_text_from_pdf\<close> returns the empty string; when the conversion to images raises,
  \<open>convert_pdf_to_images\<close> returns the empty list. Neither function has an error result, and
  with empty text and no images \<open>prepare_vision_content\<close> still builds its content, a single
  text part, so the chain goes on.
\<close>

theorem extraction_failure_not_fatal:
  "(fitz_open L b = Inl e \<longrightarrow> extract_text_from_pdf L b = []) \<and>
   (fitz_open L b = Inr doc \<and> Inl e \<in> set doc \<longrightarrow> extract_text_from_pdf L b = []) \<and>
   (convert_from_bytes L b = Inl e' \<longrightarrow> convert_pdf_to_images L b max_pages = []) \<and>
   (extract_text_from_pdf L b = [] \<and> convert_pdf_to_images L b 5 = [] \<longrightarrow>
      prepare_vision_content L b None (Some prompt) include_images =
        [TextPart (prompt @ RESUME_LABEL @ ELLIPSIS)])"
proof -
  have a: "fitz_open L b = Inl e \<longrightarrow> extract_text_from_pdf L b = []"
    by (simp add: extract_text_from_pdf_def)
  have b: "fitz_open L b = Inr doc \<and> Inl e \<in> set doc \<longrightarrow> extract_text_from_pdf L b = []"
  proof
    assume h: "fitz_open L b = Inr doc \<and> Inl e \<in> set doc"
    then obtain e' where "get_text_pages doc [] = Inl e'"
      using get_text_pages_error by blast
    with h show "extract_text_from_pdf L b = []"
      by (simp add: extract_text_from_pdf_def)
  qed
  have c: "convert_from_bytes L b = Inl e' \<longrightarrow> convert_pdf_to_images L b max_pages = []"
    by (simp add: convert_pdf_to_images_def)
  have d: "extract_text_from_pdf L b = [] \<and> convert_pdf_to_images L b 5 = [] \<longrightarrow>
      prepare_vision_content L b None (Some prompt) include_images =
        [TextPart (prompt @ RESUME_LABEL @ ELLIPSIS)]"
    by (simp add: prepare_vision_content_def format_str_def Let_def)
  from a b c d show ?thesis by blast
qed

theorem extraction_failure_not_fatal_witness:
  "fitz_open (demo_libs []) ''junk'' = Inl (LibraryError ''cannot open document'') \<and>
   convert_from_bytes (demo_libs []) ''junk'' = Inl (LibraryError ''unable to get page count'') \<and>
   extract_text_from_pdf (demo_libs []) ''junk'' = [] \<and>
   convert_pdf_to_images (demo_libs []) ''junk'' 5 = [] \<and>
   prepare_vision_content (demo_libs []) ''junk'' None (Some (lit ''P'')) True =
     [TextPart (lit ''P'' @ RESUME_LABEL @ ELLIPSIS)]"
proof -
  have h1: "fitz_open (demo_libs []) ''junk'' = Inl (LibraryError ''cannot open document'')"
    by (simp add: demo_libs_def)
  have h2: "convert_from_bytes (demo_libs []) ''junk'' = Inl (LibraryError ''unable to get page count'')"
    by (simp add: demo_libs_def)
  note t = extraction_failure_not_fatal[of "demo_libs []" "''junk''"
      "LibraryError ''cannot open document''" "[]" "LibraryError ''unable to get page count''"
      5 "lit ''P''" True]
  from t h1 have a: "extract_text_from_pdf (demo_libs []) ''junk'' = []" by blast
  from t h2 have b: "convert_pdf_to_images (demo_libs []) ''junk'' 5 = []" by blast
  from t a b have "prepare_vision_content (demo_libs []) ''junk'' None (Some (lit ''P'')) True =
     [TextPart (lit ''P'' @ RESUME_LABEL @ ELLIPSIS)]" by blast
  with h1 h2 a b show ?thesis by blast
qed

text \<open>
  Claim C7. For every page limit \<open>max_pages\<close>, a count, \<open>convert_pdf_to_images\<close> returns at
  most \<open>max_pages\<close> images, at most 5 with the default, and \<open>prepare_vision_content\<close> has
  at most 3 image parts whatever its arguments are.
\<close>

theorem image_limits:
  fixes max_pages :: nat
  shows "length (convert_pdf_to_images L b (int max_pages)) \<le> max_pages \<and>
         length (convert_pdf_to_images L b 5) \<le> 5 \<and>
         length (filter (\<lambda>p. \<not> is_text p) (prepare_vision_content L b jd prompt include_images)) \<le> 3"
proof -
  have a: "\<And>m. 0 \<le> m \<Longrightarrow> length (convert_pdf_to_images L b m) \<le> nat m"
    by (auto simp: convert_pdf_to_images_def length_slice_to split: sum.splits)
  have "length (filter (\<lambda>p. \<not> is_text p) (prepare_vision_content L b jd prompt include_images))
          \<le> length (slice_to (convert_pdf_to_images L b 5) 3)"
    by (simp add: prepare_vision_content_def Let_def o_def)
  also have "\<dots> \<le> 3" using length_slice_to[of 3 "convert_pdf_to_images L b 5"] by simp
  finally show ?thesis using a[of "int max_pages"] a[of 5] by simp
qed

lemma jpeg_demo: "jpeg_base64 (demo_libs r) img = [65 + img]"
  by (simp add: demo_libs_def)

theorem image_limits_witness:
  "convert_from_bytes (demo_libs []) ''%PDF'' = Inr [0, 1, 2, 3, 4, 5, 6] \<and>
   convert_pdf_to_images (demo_libs []) ''%PDF'' 2 = [0, 1] \<and>
   convert_pdf_to_images (demo_libs []) ''%PDF'' 5 = [0, 1, 2, 3, 4] \<and>
   filter (\<lambda>p. \<not> is_text p) (prepare_vision_content (demo_libs []) ''%PDF'' None (Some []) True) =
     [ImagePart (lit ''image/jpeg'') (lit ''A''), ImagePart (lit ''image/jpeg'') (lit ''B''),
      ImagePart (lit ''image/jpeg'') (lit ''C'')] \<and>
   length (convert_pdf_to_images (demo_libs []) ''%PDF'' (int 2)) \<le> 2 \<and>
   length (filter (\<lambda>p. \<not> is_text p)
      (prepare_vision_content (demo_libs []) ''%PDF'' None (Some []) True)) \<le> 3"
proof -
  have c: "convert_from_bytes (demo_libs []) ''%PDF'' = Inr [0, 1, 2, 3, 4, 5, 6]"
    by (simp add: demo_libs_def)
  have c2: "convert_pdf_to_images (demo_libs []) ''%PDF'' 2 = [0, 1]"
    by (simp add: convert_pdf_to_images_def c slice_to_def)
  have c5: "convert_pdf_to_images (demo_libs []) ''%PDF'' 5 = [0, 1, 2, 3, 4]"
    by (simp add: convert_pdf_to_images_def c slice_to_def)
  have p: "filter (\<lambda>p. \<not> is_text p) (prepare_vision_content (demo_libs []) ''%PDF'' None (Some []) True) =
     [ImagePart (lit ''image/jpeg'') (lit ''A''), ImagePart (lit ''image/jpeg'') (lit ''B''),
      ImagePart (lit ''image/jpeg'') (lit ''C'')]"
    by (simp add: prepare_vision_content_def c5 slice_to_def Let_def jpeg_demo lit_def)
  from image_limits[of "demo_libs []" "''%PDF''" 2 None "Some []" True] c c2 c5 p
  show ?thesis by blast
qed

lemma extract_demo: "extract_text_from_pdf (demo_libs r) ''%PDF'' = resume_text"
  by (simp add: extract_text_from_pdf_def demo_libs_def)

text \<open>
  Claim C4, as amended. The content starts with its only text part. The text is the prompt,
  the label \<open>Resume text content:\<close> after two newlines, the first 10000 characters of the
  extracted text, three dots, and, for a job description that is given and not empty, the
  label \<open>JOB DESCRIPTION:\<close> between two newlines and one newline, followed by the job
  description as it is. The resume text taken is never longer than 10000 characters.
\<close>

theorem prepared_text_part:
  "\<exists>t images.
     prepare_vision_content L b jd (Some prompt) include_images = TextPart t # images \<and>
     (\<forall>q \<in> set images. \<not> is_text q) \<and>
     t = prompt @ RESUME_LABEL @ take 10000 (extract_text_from_pdf L b) @ ELLIPSIS @
           (case jd of None \<Rightarrow> [] | Some j \<Rightarrow> if j = [] then [] else JOB_LABEL @ j) \<and>
     length (take 10000 (extract_text_from_pdf L b)) \<le> 10000"
proof -
  let ?text0 = "prompt @ RESUME_LABEL @ take 10000 (extract_text_from_pdf L b) @ ELLIPSIS"
  let ?block = "case jd of None \<Rightarrow> [] | Some j \<Rightarrow> if j = [] then [] else JOB_LABEL @ j"
  let ?images = "if include_images then
       (let images = convert_pdf_to_images L b 5
        in if images = [] then []
           else map (\<lambda>img. ImagePart (lit ''image/jpeg'') (jpeg_base64 L img)) (slice_to images 3))
     else []"
  have pieces: "(case jd of None \<Rightarrow> ?text0
               | Some j \<Rightarrow> if j \<noteq> [] then ?text0 @ JOB_LABEL @ j else ?text0) = ?text0 @ ?block"
    by (cases jd) simp_all
  have shape: "prepare_vision_content L b jd (Some prompt) include_images =
                 TextPart (?text0 @ ?block) # ?images"
    unfolding prepare_vision_content_def Let_def format_str_def option.case pieces by simp
  have images: "\<forall>q \<in> set ?images. \<not> is_text q"
    by (auto simp: Let_def)
  have "length (take 10000 (extract_text_from_pdf L b)) \<le> 10000"
    by simp
  with shape images show ?thesis by (intro exI[of _ "?text0 @ ?block"] exI[of _ ?images]) simp
qed

theorem prepared_text_part_witness:
  "prepare_vision_content (demo_libs []) ''%PDF'' (Some (lit ''Python developer''))
      (Some (lit ''Analyze.'')) False =
     [TextPart (lit ''Analyze.\<newline>\<newline>Resume text content: John Doe\<newline>Software Engineer...\<newline>\<newline>JOB DESCRIPTION:\<newline>Python developer'')]"
proof -
  from prepared_text_part[of "demo_libs []" "''%PDF''" "Some (lit ''Python developer'')"
      "lit ''Analyze.''" False]
  obtain t images where
    "prepare_vision_content (demo_libs []) ''%PDF'' (Some (lit ''Python developer''))
       (Some (lit ''Analyze.'')) False = TextPart t # images"
    by blast
  then show ?thesis
    by (simp add: prepare_vision_content_def Let_def format_str_def extract_demo resume_text_def
        RESUME_LABEL_def ELLIPSIS_def JOB_LABEL_def lit_def)
qed

text \<open>
  Claim C4 as stated fails. With no job description the text is not the prompt followed by
  the extracted text: a label comes between them and three dots come after. With the empty
  string as job description the content is the one built with no job description: no
  labeled block is appended.
\<close>

theorem prepared_text_counterexample:
  "prepare_vision_content (demo_libs []) ''%PDF'' None (Some (lit ''Analyze.'')) False =
     [TextPart (lit ''Analyze.\<newline>\<newline>Resume text content: John Doe\<newline>Software Engineer...'')] \<and>
   lit ''Analyze.\<newline>\<newline>Resume text content: John Doe\<newline>Software Engineer...'' \<noteq>
     lit ''Analyze.'' @ take 10000 (extract_text_from_pdf (demo_libs []) ''%PDF'') \<and>
   prepare_vision_content (demo_libs []) ''%PDF'' (Some []) (Some (lit ''Analyze.'')) False =
     prepare_vision_content (demo_libs []) ''%PDF'' None (Some (lit ''Analyze.'')) False"
  by (simp add: prepare_vision_content_def Let_def format_str_def extract_demo resume_text_def
        RESUME_LABEL_def ELLIPSIS_def JOB_LABEL_def lit_def)

section \<open>Properties of the completion client\<close>

lemma retry_unroll:
  "get_gemini_response L content_parts temp w =
     (let req = generation_request content_parts temp in
      case generate L (calls w @ [req]) of
        Inr t \<Rightarrow> (Inr t, w\<lparr>calls := calls w @ [req]\<rparr>)
      | Inl e1 \<Rightarrow>
          (case generate L (calls w @ [req, req]) of
             Inr t \<Rightarrow> (Inr t, w\<lparr>calls := calls w @ [req, req], sleeps := sleeps w @ [2]\<rparr>)
           | Inl e2 \<Rightarrow>
               (case generate L (calls w @ [req, req, req]) of
                  Inr t \<Rightarrow>
                    (Inr t, w\<lparr>calls := calls w @ [req, req, req], sleeps := sleeps w @ [2, 4]\<rparr>)
                | Inl e3 \<Rightarrow>
                    (Inl e3, w\<lparr>calls := calls w @ [req, req, req], sleeps := sleeps w @ [2, 4]\<rparr>))))"
  by (simp add: get_gemini_response_def Let_def max_retries_def generate_content_def sleep_def
      split: sum.splits)

text \<open>
  Claim C2, as amended. A call makes one, two or three attempts, each sending the same
  request, and returns what the last one gave. After the first failure it sleeps 2 seconds
  and after the second 4 seconds; after the third failure it sleeps no more and the third
  exception goes to the caller. Two failures followed by a success give the successful
  reply after 2 + 4 = 6 seconds of sleep.
\<close>

theorem retry_policy:
  fixes L :: "'img libs"
  shows
  "(let req = generation_request content_parts temp;
        a1 = generate L (calls w @ [req]);
        a2 = generate L (calls w @ [req, req]);
        a3 = generate L (calls w @ [req, req, req]);
        res = get_gemini_response L content_parts temp w
    in (\<exists>n. 1 \<le> n \<and> n \<le> 3 \<and> calls (snd res) = calls w @ replicate n req \<and>
             sleeps (snd res) = sleeps w @ take (n - 1) [2, 4] \<and>
             fst res = generate L (calls (snd res))) \<and>
       (\<forall>t. a1 = Inr t \<longrightarrow> res = (Inr t, w\<lparr>calls := calls w @ [req]\<rparr>)) \<and>
       (\<forall>e t. a1 = Inl e \<and> a2 = Inr t \<longrightarrow>
          res = (Inr t, w\<lparr>calls := calls w @ [req, req], sleeps := sleeps w @ [2]\<rparr>)) \<and>
       (\<forall>e e' t. a1 = Inl e \<and> a2 = Inl e' \<and> a3 = Inr t \<longrightarrow>
          res = (Inr t, w\<lparr>calls := calls w @ [req, req, req], sleeps := sleeps w @ [2, 4]\<rparr>) \<and>
          sum_list (sleeps (snd res)) = sum_list (sleeps w) + 6) \<and>
       (\<forall>e e' e''. a1 = Inl e \<and> a2 = Inl e' \<and> a3 = Inl e'' \<longrightarrow>
          res = (Inl e'', w\<lparr>calls := calls w @ [req, req, req], sleeps := sleeps w @ [2, 4]\<rparr>)))"
proof -
  define req where "req = generation_request content_parts temp"
  define res where "res = get_gemini_response L content_parts temp w"
  note u = retry_unroll[of L content_parts temp w, folded req_def res_def, unfolded Let_def]
  have shape: "\<exists>n. 1 \<le> n \<and> n \<le> 3 \<and> calls (snd res) = calls w @ replicate n req \<and>
             sleeps (snd res) = sleeps w @ take (n - 1) [2, 4] \<and>
             fst res = generate L (calls (snd res))"
  proof (cases "generate L (calls w @ [req])")
    case (Inr t)
    with u show ?thesis by (intro exI[of _ 1]) simp
  next
    case e1: (Inl e1)
    show ?thesis
    proof (cases "generate L (calls w @ [req, req])")
      case (Inr t)
      with u e1 show ?thesis by (intro exI[of _ 2]) (simp add: numeral_2_eq_2)
    next
      case e2: (Inl e2)
      show ?thesis
      proof (cases "generate L (calls w @ [req, req, req])")
        case (Inr t)
        with u e1 e2 show ?thesis by (intro exI[of _ 3]) (simp add: numeral_3_eq_3)
      next
        case (Inl e3)
        with u e1 e2 show ?thesis by (intro exI[of _ 3]) (simp add: numeral_3_eq_3)
      qed
    qed
  qed
  have rest: "(\<forall>t. generate L (calls w @ [req]) = Inr t \<longrightarrow> res = (Inr t, w\<lparr>calls := calls w @ [req]\<rparr>)) \<and>
       (\<forall>e t. generate L (calls w @ [req]) = Inl e \<and> generate L (calls w @ [req, req]) = Inr t \<longrightarrow>
          res = (Inr t, w\<lparr>calls := calls w @ [req, req], sleeps := sleeps w @ [2]\<rparr>)) \<and>
       (\<forall>e e' t. generate L (calls w @ [req]) = Inl e \<and> generate L (calls w @ [req, req]) = Inl e' \<and>
            generate L (calls w @ [req, req, req]) = Inr t \<longrightarrow>
          res = (Inr t, w\<lparr>calls := calls w @ [req, req, req], sleeps := sleeps w @ [2, 4]\<rparr>) \<and>
          sum_list (sleeps (snd res)) = sum_list (sleeps w) + 6) \<and>
       (\<forall>e e' e''. generate L (calls w @ [req]) = Inl e \<and> generate L (calls w @ [req, req]) = Inl e' \<and>
            generate L (calls w @ [req, req, req]) = Inl e'' \<longrightarrow>
          res = (Inl e'', w\<lparr>calls := calls w @ [req, req, req], sleeps := sleeps w @ [2, 4]\<rparr>))"
    using u by auto
  show ?thesis
    unfolding Let_def req_def[symmetric] res_def[symmetric] using shape rest by blast
qed

lemma scripted_3:
  "scripted [a, b, c] [r1] = a" "scripted [a, b, c] [r1, r2] = b"
  "scripted [a, b, c] [r1, r2, r3] = c"
  by (simp_all add: scripted_def)

theorem retry_policy_witness:
  "get_gemini_response (demo_libs [Inl boom, Inl boom, Inr (lit ''ok'')]) [] 0.2 empty_world =
     (Inr (lit ''ok''),
      \<lparr>calls = replicate 3 (generation_request [] 0.2), sleeps = [2, 4]\<rparr>) \<and>
   sum_list (sleeps (snd (get_gemini_response
      (demo_libs [Inl boom, Inl boom, Inr (lit ''ok'')]) [] 0.2 empty_world))) = 6"
proof -
  let ?L = "demo_libs [Inl boom, Inl boom, Inr (lit ''ok'')]"
  have g: "generate ?L = scripted [Inl boom, Inl boom, Inr (lit ''ok'')]"
    by (simp add: demo_libs_def)
  from retry_policy[of "[]" "0.2" ?L empty_world]
  show ?thesis
    by (simp add: Let_def g scripted_3 empty_world_def numeral_3_eq_3)
qed

text \<open>
  Claim C2 as stated fails on the waits. With an oracle that fails twice and then answers,
  the sleeps are 2 and 4 seconds, not 1 and 2; with one failure the sleep is 2 seconds.
\<close>

theorem retry_waits_counterexample:
  "sleeps (snd (get_gemini_response (demo_libs [Inl boom, Inl boom, Inr (lit ''ok'')])
      [] 0.2 empty_world)) = [2, 4] \<and>
   sleeps (snd (get_gemini_response (demo_libs [Inl boom, Inl boom, Inr (lit ''ok'')])
      [] 0.2 empty_world)) \<noteq> [1, 2] \<and>
   sleeps (snd (get_gemini_response (demo_libs [Inl boom, Inr (lit ''ok''), Inr (lit ''ok'')])
      [] 0.2 empty_world)) = [2]"
proof -
  have g: "\<And>r. generate (demo_libs r) = scripted r"
    by (simp add: demo_libs_def)
  show ?thesis
    by (simp add: retry_unroll Let_def g scripted_3 empty_world_def)
qed

section \<open>Properties of the analysis chain\<close>












lemma client_response_object:
  "client_response (JObject items) = Inr (filter (\<lambda>(k, v). \<not> startswith k (lit ''_'')) items)"
  by (simp add: client_response_def)











end
